theory Spec2Isabelle
  imports Main "HOL-Library.Word" "HOL-Library.Char_ord" "HOL-Library.List_Lexorder"
    "HOL-Library.Multiset"
begin

unbundle bit_operations_syntax

section \<open>Strings and character classes\<close>

text \<open>
  A Python \<open>str\<close> is modelled as a \<open>string\<close>, each \<open>char\<close> standing for the code
  point of the same number (0 to 255).  The three character classes below are the ones
  Python's \<open>re\<close> module uses for \<open>str\<close> patterns (\<open>\d\<close>, \<open>\s\<close>, \<open>\w\<close>), cut
  down to that range.
\<close>

definition code :: "char \<Rightarrow> nat" where
  "code c = of_char c"

definition in_range :: "char \<Rightarrow> char \<Rightarrow> char \<Rightarrow> bool" where
  "in_range lo hi c = (code lo \<le> code c \<and> code c \<le> code hi)"

definition is_digit :: "char \<Rightarrow> bool" where
  "is_digit c = in_range CHR ''0'' CHR ''9'' c"

definition is_upper :: "char \<Rightarrow> bool" where
  "is_upper c = in_range CHR ''A'' CHR ''Z'' c"

definition is_lower :: "char \<Rightarrow> bool" where
  "is_lower c = in_range CHR ''a'' CHR ''z'' c"

definition is_space :: "char \<Rightarrow> bool" where
  "is_space c = (code c \<in> {9, 10, 11, 12, 13, 28, 29, 30, 31, 32, 133, 160})"

definition is_word :: "char \<Rightarrow> bool" where
  "is_word c = (is_digit c \<or> is_upper c \<or> is_lower c \<or> c = CHR ''_''
     \<or> code c \<in> {170, 178, 179, 181, 185, 186, 188, 189, 190}
     \<or> (192 \<le> code c \<and> code c \<le> 214)
     \<or> (216 \<le> code c \<and> code c \<le> 246)
     \<or> 248 \<le> code c)"

section \<open>Regular expressions as \<open>re\<close> runs them\<close>

text \<open>
  The fragment of Python's regular expressions that \<open>privacy.py\<close> uses: a single
  character of a class, concatenation, the greedy \<open>?\<close>, the greedy \<open>+\<close> on a class and
  the word boundary \<open>\b\<close>.  \<open>x{n}\<close> is \<open>n\<close> copies of \<open>x\<close> and \<open>x{2,}\<close> is \<open>x\<close>
  followed by \<open>x+\<close>.
\<close>

datatype regex =
    Eps
  | Cls "char \<Rightarrow> bool"
  | Seq regex regex
  | Opt regex
  | Plus "char \<Rightarrow> bool"
  | WordB

text \<open>
  A matcher state is the text still to read together with a flag saying whether the
  character just before it is a word character (false at the start of the text).
  \<open>run r s\<close> lists the states in which \<open>r\<close> can stop when started in \<open>s\<close>, in the
  order in which the backtracking engine tries them: the longer repetition first, the
  optional part present before absent.
\<close>

fun next_is_word :: "string \<Rightarrow> bool" where
  "next_is_word [] = False"
| "next_is_word (c # cs) = is_word c"

fun run :: "regex \<Rightarrow> bool \<times> string \<Rightarrow> (bool \<times> string) list" where
  "run Eps s = [s]"
| "run (Cls p) (w, []) = []"
| "run (Cls p) (w, c # cs) = (if p c then [(is_word c, cs)] else [])"
| "run (Seq a b) s = concat (map (run b) (run a s))"
| "run (Opt a) s = run a s @ [s]"
| "run (Plus p) (w, []) = []"
| "run (Plus p) (w, c # cs) =
     (if p c then run (Plus p) (is_word c, cs) @ [(is_word c, cs)] else [])"
| "run WordB (w, cs) = (if w \<noteq> next_is_word cs then [(w, cs)] else [])"

text \<open>
  \<open>Pattern.sub(repl, text)\<close>: scan from the left; where the pattern matches, emit the
  replacement and go on after the match, otherwise copy one character.  An empty match
  emits the replacement and copies the character; none of the patterns below has one.
\<close>

fun sub :: "regex \<Rightarrow> string \<Rightarrow> bool \<Rightarrow> string \<Rightarrow> string" where
  "sub r repl w [] = (case run r (w, []) of [] \<Rightarrow> [] | _ # _ \<Rightarrow> repl)"
| "sub r repl w (c # cs) =
     (case run r (w, c # cs) of
        [] \<Rightarrow> c # sub r repl (is_word c) cs
      | (w', rest) # _ \<Rightarrow>
          if length rest < length (c # cs) then repl @ sub r repl w' rest
          else repl @ c # sub r repl (is_word c) cs)"

fun seqs :: "regex list \<Rightarrow> regex" where
  "seqs [] = Eps"
| "seqs [r] = r"
| "seqs (r # rs) = Seq r (seqs rs)"

fun times :: "nat \<Rightarrow> regex \<Rightarrow> regex" where
  "times 0 r = Eps"
| "times (Suc 0) r = r"
| "times (Suc n) r = Seq r (times n r)"

definition Chr :: "char \<Rightarrow> regex" where
  "Chr c = Cls (\<lambda>x. x = c)"

definition word_bounded :: "regex \<Rightarrow> regex" where
  "word_bounded r = Seq WordB (Seq r WordB)"

section \<open>privacy.py: the PII patterns and \<open>redact_pii\<close>\<close>

definition email_local :: "char \<Rightarrow> bool" where
  "email_local c = (is_upper c \<or> is_lower c \<or> is_digit c
     \<or> c \<in> {CHR ''.'', CHR ''_'', CHR ''%'', CHR ''+'', CHR ''-''})"

definition email_domain :: "char \<Rightarrow> bool" where
  "email_domain c = (is_upper c \<or> is_lower c \<or> is_digit c \<or> c \<in> {CHR ''.'', CHR ''-''})"

definition email_tld :: "char \<Rightarrow> bool" where
  "email_tld c = (is_upper c \<or> c = CHR ''|'' \<or> is_lower c)"

definition phone_sep :: "char \<Rightarrow> bool" where
  "phone_sep c = (c = CHR ''-'' \<or> c = CHR ''.'' \<or> is_space c)"

definition cc_sep :: "char \<Rightarrow> bool" where
  "cc_sep c = (c = CHR ''-'' \<or> is_space c)"

text \<open>\<^verbatim>\<open>\b[A-Za-z0-9._%+-]+@[A-Za-z0-9.-]+\.[A-Z|a-z]{2,}\b\<close>\<close>

definition EMAIL_CORE :: regex where
  "EMAIL_CORE = seqs [Plus email_local, Chr CHR ''@'', Plus email_domain, Chr CHR ''.'',
     Cls email_tld, Plus email_tld]"

definition EMAIL_PATTERN :: regex where
  "EMAIL_PATTERN = word_bounded EMAIL_CORE"

text \<open>\<^verbatim>\<open>\b(?:\+?1[-.\s]?)?\(?\d{3}\)?[-.\s]?\d{3}[-.\s]?\d{4}\b\<close>\<close>

definition PHONE_CORE :: regex where
  "PHONE_CORE = seqs [Opt (seqs [Opt (Chr CHR ''+''), Chr CHR ''1'', Opt (Cls phone_sep)]),
     Opt (Chr CHR ''(''), times 3 (Cls is_digit), Opt (Chr CHR '')''), Opt (Cls phone_sep),
     times 3 (Cls is_digit), Opt (Cls phone_sep), times 4 (Cls is_digit)]"

definition PHONE_PATTERN :: regex where
  "PHONE_PATTERN = word_bounded PHONE_CORE"

text \<open>\<^verbatim>\<open>\b\d{3}-\d{2}-\d{4}\b\<close>\<close>

definition SSN_CORE :: regex where
  "SSN_CORE = seqs [times 3 (Cls is_digit), Chr CHR ''-'', times 2 (Cls is_digit),
     Chr CHR ''-'', times 4 (Cls is_digit)]"

definition SSN_PATTERN :: regex where
  "SSN_PATTERN = word_bounded SSN_CORE"

text \<open>\<^verbatim>\<open>\b(?:\d{4}[-\s]?){3}\d{4}\b\<close>\<close>

definition CC_CORE :: regex where
  "CC_CORE = seqs [times 3 (seqs [times 4 (Cls is_digit), Opt (Cls cc_sep)]),
     times 4 (Cls is_digit)]"

definition CC_PATTERN :: regex where
  "CC_PATTERN = word_bounded CC_CORE"

definition redact_pii :: "string \<Rightarrow> string" where
  "redact_pii text =
     (if text = [] then text
      else
        let text = sub EMAIL_PATTERN ''[EMAIL_REDACTED]'' False text;
            text = sub PHONE_PATTERN ''[PHONE_REDACTED]'' False text;
            text = sub SSN_PATTERN ''[SSN_REDACTED]'' False text;
            text = sub CC_PATTERN ''[CC_REDACTED]'' False text
        in text)"

section \<open>Python values and exceptions\<close>

text \<open>
  The values the handlers pass around: what a JSON body parses to, plus the \<open>datetime\<close>
  objects a validated model holds (an instant, kept as a number).  A \<open>dict\<close> is the list
  of its items in insertion order; the keys of a real \<open>dict\<close> are pairwise distinct.
  A member of a \<open>str\<close>-based \<open>Enum\<close> is the \<open>PStr\<close> of its value.
\<close>

type_synonym datetime = int

datatype pyval =
    PNone
  | PBool bool
  | PInt int
  | PStr string
  | PList "pyval list"
  | PDict "(string \<times> pyval) list"
  | PDatetime datetime

type_synonym pydict = "(string \<times> pyval) list"

datatype exn =
    ValueError
  | TypeError
  | AttributeError
  | UnicodeEncodeError
  | DatabaseError
  | LookupFailure
  | HTTPException nat string

text \<open>Sequencing of computations that may raise.\<close>

fun bind_exn :: "exn + 'a \<Rightarrow> ('a \<Rightarrow> exn + 'b) \<Rightarrow> exn + 'b" where
  "bind_exn (Inl e) f = Inl e"
| "bind_exn (Inr x) f = f x"

fun all_or_raise :: "(exn + 'a) list \<Rightarrow> exn + 'a list" where
  "all_or_raise [] = Inr []"
| "all_or_raise (Inl e # rs) = Inl e"
| "all_or_raise (Inr x # rs) = bind_exn (all_or_raise rs) (\<lambda>xs. Inr (x # xs))"

text \<open>\<open>d.get(k)\<close>, \<open>d[k] = v\<close> and \<open>d.update(e)\<close> on a \<open>dict\<close>.\<close>

fun dict_get :: "(string \<times> 'v) list \<Rightarrow> string \<Rightarrow> 'v option" where
  "dict_get [] k = None"
| "dict_get ((k', v) # d) k = (if k' = k then Some v else dict_get d k)"

fun dict_set :: "(string \<times> 'v) list \<Rightarrow> string \<Rightarrow> 'v \<Rightarrow> (string \<times> 'v) list" where
  "dict_set [] k v = [(k, v)]"
| "dict_set ((k', v') # d) k v = (if k' = k then (k, v) # d else (k', v') # dict_set d k v)"

fun dict_update :: "(string \<times> 'v) list \<Rightarrow> (string \<times> 'v) list \<Rightarrow> (string \<times> 'v) list" where
  "dict_update d [] = d"
| "dict_update d ((k, v) # e) = dict_update (dict_set d k v) e"

text \<open>Truth value testing, as \<open>if x\<close> and \<open>not x\<close> do it.\<close>

fun truthy :: "pyval \<Rightarrow> bool" where
  "truthy PNone = False"
| "truthy (PBool b) = b"
| "truthy (PInt n) = (n \<noteq> 0)"
| "truthy (PStr s) = (s \<noteq> [])"
| "truthy (PList xs) = (xs \<noteq> [])"
| "truthy (PDict d) = (d \<noteq> [])"
| "truthy (PDatetime t) = True"

section \<open>privacy.py: \<open>redact_json\<close>\<close>

text \<open>
  The loop assigns \<open>result[key]\<close> once for each item of \<open>data.items()\<close>, in order, into a
  fresh \<open>dict\<close>: a \<open>map\<close> over the item list.  \<open>data\<close> itself is only read.
\<close>

definition default_fields :: "string list" where
  "default_fields = [''email'', ''phone'', ''name'', ''address'', ''ssn'', ''credit_card'']"

fun redact_json :: "pydict \<Rightarrow> string list option \<Rightarrow> pydict" where
  "redact_json data fields_to_redact =
     (let fields = (case fields_to_redact of None \<Rightarrow> default_fields | Some fs \<Rightarrow> fs) in
      map (\<lambda>kv.
        if fst kv \<in> set fields then (fst kv, PStr ''[REDACTED]'')
        else (case snd kv of
            PStr s \<Rightarrow> (fst kv, PStr (redact_pii s))
          | PDict d \<Rightarrow> (fst kv, PDict (redact_json d (Some fields)))
          | PList items \<Rightarrow> (fst kv, PList (map (\<lambda>item.
              (case item of
                 PDict d \<Rightarrow> PDict (redact_json d (Some fields))
               | PStr s \<Rightarrow> PStr (redact_pii s)
               | _ \<Rightarrow> item)) items))
          | _ \<Rightarrow> kv)) data)"

text \<open>
  What the claims about \<open>redact_json\<close> speak of: \<open>no_sensitive_left fields v\<close> holds when,
  at every depth of \<open>v\<close>, each \<open>dict\<close> item whose key is in \<open>fields\<close> has the placeholder
  as its value.
\<close>

fun no_sensitive_left :: "string list \<Rightarrow> pyval \<Rightarrow> bool" where
  "no_sensitive_left fields (PDict d) =
     list_all (\<lambda>kv. (if fst kv \<in> set fields then snd kv = PStr ''[REDACTED]'' else True)
                  \<and> no_sensitive_left fields (snd kv)) d"
| "no_sensitive_left fields (PList xs) = list_all (no_sensitive_left fields) xs"
| "no_sensitive_left fields v = True"

fun is_container_or_str :: "pyval \<Rightarrow> bool" where
  "is_container_or_str (PStr s) = True"
| "is_container_or_str (PList xs) = True"
| "is_container_or_str (PDict d) = True"
| "is_container_or_str v = False"

section \<open>Text helpers\<close>

text \<open>\<open>s.split(sep)\<close> and \<open>sep.join(parts)\<close>.\<close>

fun split_on :: "char \<Rightarrow> string \<Rightarrow> string list" where
  "split_on d [] = [[]]"
| "split_on d (c # cs) =
     (if c = d then [] # split_on d cs
      else (case split_on d cs of [] \<Rightarrow> [[c]] | p # ps \<Rightarrow> (c # p) # ps))"

fun join :: "string \<Rightarrow> string list \<Rightarrow> string" where
  "join sep [] = []"
| "join sep [p] = p"
| "join sep (p # ps) = p @ sep @ join sep ps"

definition digit_char :: "nat \<Rightarrow> char" where
  "digit_char n = ''0123456789abcdef'' ! (n mod 16)"

text \<open>\<open>str(n)\<close> for a non-negative \<open>int\<close>, and \<open>'%x' % n\<close>.\<close>

fun str_nat :: "nat \<Rightarrow> string" where
  "str_nat n = (if n < 10 then [digit_char n] else str_nat (n div 10) @ [digit_char (n mod 10)])"

fun hex_nat :: "nat \<Rightarrow> string" where
  "hex_nat n = (if n < 16 then [digit_char n] else hex_nat (n div 16) @ [digit_char (n mod 16)])"

definition is_hex_digit :: "char \<Rightarrow> bool" where
  "is_hex_digit c = (is_digit c \<or> in_range CHR ''A'' CHR ''F'' c \<or> in_range CHR ''a'' CHR ''f'' c)"

definition hex_val :: "char \<Rightarrow> nat" where
  "hex_val c = (if is_digit c then code c - 48
                else if in_range CHR ''a'' CHR ''f'' c then code c - 87 else code c - 55)"

text \<open>\<open>int(s, 10)\<close> and \<open>int(s, 16)\<close> on a non-empty string of digits.\<close>

definition int_of_dec :: "string \<Rightarrow> nat" where
  "int_of_dec s = foldl (\<lambda>n c. n * 10 + (code c - 48)) 0 s"

definition int_of_hex :: "string \<Rightarrow> nat" where
  "int_of_hex s = foldl (\<lambda>n c. n * 16 + hex_val c) 0 s"

section \<open>The \<open>ipaddress\<close> module\<close>

text \<open>
  \<open>ipaddress.ip_address\<close> on a string, after CPython's \<open>ipaddress.py\<close>: an IPv4 address
  is four decimal octets without leading zeros; an IPv6 address is up to eight hextets
  with at most one \<open>::\<close>, an optional dotted-quad tail and an optional \<open>%scope\<close>.
  Addresses are Python integers.
\<close>

datatype ip_addr = IPv4Address nat | IPv6Address nat "string option"

definition parse_octet :: "string \<Rightarrow> exn + nat" where
  "parse_octet octet_str =
     (if octet_str = [] then Inl ValueError
      else if \<not> list_all is_digit octet_str then Inl ValueError
      else if length octet_str > 3 then Inl ValueError
      else if octet_str \<noteq> ''0'' \<and> hd octet_str = CHR ''0'' then Inl ValueError
      else let octet_int = int_of_dec octet_str in
        if octet_int > 255 then Inl ValueError else Inr octet_int)"

definition ipv4_int_from_string :: "string \<Rightarrow> exn + nat" where
  "ipv4_int_from_string ip_str =
     (if ip_str = [] then Inl ValueError
      else let octets = split_on CHR ''.'' ip_str in
        if length octets \<noteq> 4 then Inl ValueError
        else bind_exn (all_or_raise (map parse_octet octets))
               (\<lambda>os. Inr (foldl (\<lambda>n b. n * 256 + b) 0 os)))"

definition ipv4_address :: "string \<Rightarrow> exn + nat" where
  "ipv4_address addr_str =
     (if CHR ''/'' \<in> set addr_str then Inl ValueError else ipv4_int_from_string addr_str)"

definition parse_hextet :: "string \<Rightarrow> exn + nat" where
  "parse_hextet hextet_str =
     (if \<not> list_all is_hex_digit hextet_str then Inl ValueError
      else if length hextet_str > 4 then Inl ValueError
      else if hextet_str = [] then Inl ValueError
      else Inr (int_of_hex hextet_str))"

definition split_scope_id :: "string \<Rightarrow> exn + string \<times> string option" where
  "split_scope_id ip_str =
     (let addr = takeWhile (\<lambda>c. c \<noteq> CHR ''%'') ip_str;
          rest = dropWhile (\<lambda>c. c \<noteq> CHR ''%'') ip_str
      in if rest = [] then Inr (addr, None)
         else if tl rest = [] \<or> CHR ''%'' \<in> set (tl rest) then Inl ValueError
         else Inr (addr, Some (tl rest)))"

text \<open>The loop that looks for the one inner empty part a \<open>::\<close> leaves.\<close>

definition find_skip_index :: "string list \<Rightarrow> exn + nat option" where
  "find_skip_index parts =
     (case filter (\<lambda>i. parts ! i = []) [1 ..< length parts - 1] of
        [] \<Rightarrow> Inr None
      | [i] \<Rightarrow> Inr (Some i)
      | _ \<Rightarrow> Inl ValueError)"

definition ipv6_int_from_string :: "string \<Rightarrow> exn + nat" where
  "ipv6_int_from_string ip_str =
     (if ip_str = [] then Inl ValueError
      else let parts = split_on CHR '':'' ip_str in
      if length parts < 3 then Inl ValueError
      else
        bind_exn
          (if CHR ''.'' \<in> set (last parts)
           then bind_exn (ipv4_address (last parts))
                  (\<lambda>ipv4_int. Inr (butlast parts @
                     [hex_nat ((ipv4_int div 65536) mod 65536), hex_nat (ipv4_int mod 65536)]))
           else Inr parts)
          (\<lambda>parts.
        if length parts > 9 then Inl ValueError
        else
        bind_exn (find_skip_index parts) (\<lambda>skip_index.
        bind_exn
          (case skip_index of
             Some sk \<Rightarrow>
               bind_exn (if hd parts = [] then (if sk - 1 \<noteq> 0 then Inl ValueError else Inr (sk - 1))
                         else Inr sk) (\<lambda>parts_hi.
               bind_exn (if last parts = []
                         then (if length parts - sk - 1 - 1 \<noteq> 0 then Inl ValueError
                               else Inr (length parts - sk - 1 - 1))
                         else Inr (length parts - sk - 1)) (\<lambda>parts_lo.
               if 8 \<le> parts_hi + parts_lo then Inl ValueError
               else Inr (parts_hi, parts_lo, 8 - (parts_hi + parts_lo))))
           | None \<Rightarrow>
               if length parts \<noteq> 8 then Inl ValueError
               else if hd parts = [] then Inl ValueError
               else if last parts = [] then Inl ValueError
               else Inr (length parts, 0, 0))
          (\<lambda>(parts_hi, parts_lo, parts_skipped).
        bind_exn (all_or_raise (map parse_hextet (take parts_hi parts))) (\<lambda>hi.
        bind_exn (all_or_raise (map parse_hextet (drop (length parts - parts_lo) parts))) (\<lambda>lo.
          Inr (foldl (\<lambda>n h. n * 65536 + h)
                 (foldl (\<lambda>n h. n * 65536 + h) 0 hi * 2 ^ (16 * parts_skipped)) lo)))))))"

definition ipv6_address :: "string \<Rightarrow> exn + nat \<times> string option" where
  "ipv6_address addr_str =
     (if CHR ''/'' \<in> set addr_str then Inl ValueError
      else bind_exn (split_scope_id addr_str)
             (\<lambda>(addr, scope_id). bind_exn (ipv6_int_from_string addr) (\<lambda>n. Inr (n, scope_id))))"

definition ip_address :: "string \<Rightarrow> exn + ip_addr" where
  "ip_address address =
     (case ipv4_address address of
        Inr n \<Rightarrow> Inr (IPv4Address n)
      | Inl _ \<Rightarrow>
          (case ipv6_address address of
             Inr (n, scope_id) \<Rightarrow> Inr (IPv6Address n scope_id)
           | Inl _ \<Rightarrow> Inl ValueError))"

text \<open>\<open>str\<close> of an address: dotted decimal, or hextets with the longest run of zeros
  (two or more, the first such run) written \<open>::\<close>.\<close>

definition ipv4_string :: "nat \<Rightarrow> string" where
  "ipv4_string n = join ''.'' (map (\<lambda>i. str_nat ((n div 256 ^ (3 - i)) mod 256)) [0 ..< 4])"

definition compress_step :: "int \<times> nat \<times> int \<times> nat \<Rightarrow> nat \<times> string \<Rightarrow> int \<times> nat \<times> int \<times> nat" where
  "compress_step st ih =
     (case st of (best_start, best_len, dc_start, dc_len) \<Rightarrow>
        if snd ih = ''0'' then
          let dc_len = dc_len + 1;
              dc_start = (if dc_start = - 1 then int (fst ih) else dc_start)
          in if dc_len > best_len then (dc_start, dc_len, dc_start, dc_len)
             else (best_start, best_len, dc_start, dc_len)
        else (best_start, best_len, - 1, 0))"

definition compress_hextets :: "string list \<Rightarrow> string list" where
  "compress_hextets hextets =
     (case foldl compress_step (- 1, 0, - 1, 0) (zip [0 ..< length hextets] hextets) of
        (best_start, best_len, _, _) \<Rightarrow>
          if best_len > 1 then
            let s = nat best_start; e = s + best_len;
                hextets = (if e = length hextets then hextets @ [[]] else hextets);
                hextets = take s hextets @ [[]] @ drop e hextets
            in if s = 0 then [] # hextets else hextets
          else hextets)"

definition ipv6_string :: "nat \<Rightarrow> string" where
  "ipv6_string n =
     join '':'' (compress_hextets
       (map (\<lambda>i. hex_nat ((n div 65536 ^ (7 - i)) mod 65536)) [0 ..< 8]))"

text \<open>
  \<open>ip_network(f"{ip}/p", strict=False).network_address\<close>: the address with all but its
  top \<open>p\<close> bits cleared.
\<close>

definition network_address :: "nat \<Rightarrow> nat \<Rightarrow> nat \<Rightarrow> nat" where
  "network_address bits p n = (n div 2 ^ (bits - p)) * 2 ^ (bits - p)"

section \<open>\<open>hashlib.sha256\<close> and \<open>hmac\<close>\<close>

type_synonym byte = "8 word"
type_synonym w32 = "32 word"

text \<open>\<open>s.encode()\<close>: UTF-8.  Every code point below 256 encodes, in one or two bytes.\<close>

definition encode :: "string \<Rightarrow> exn + byte list" where
  "encode s = Inr (concat (map (\<lambda>c.
      if code c < 128 then [of_nat (code c)]
      else [of_nat (192 + code c div 64), of_nat (128 + code c mod 64)]) s))"

text \<open>
  The round constants (the first 32 bits of the fractional parts of the cube roots of
  the first 64 primes) and the initial hash value (likewise for the square roots of the
  first 8 primes), in decimal.
\<close>

definition K256 :: "w32 list" where
  "K256 = [
    1116352408, 1899447441, 3049323471, 3921009573, 961987163, 1508970993,
    2453635748, 2870763221, 3624381080, 310598401, 607225278, 1426881987,
    1925078388, 2162078206, 2614888103, 3248222580, 3835390401, 4022224774,
    264347078, 604807628, 770255983, 1249150122, 1555081692, 1996064986,
    2554220882, 2821834349, 2952996808, 3210313671, 3336571891, 3584528711,
    113926993, 338241895, 666307205, 773529912, 1294757372, 1396182291,
    1695183700, 1986661051, 2177026350, 2456956037, 2730485921, 2820302411,
    3259730800, 3345764771, 3516065817, 3600352804, 4094571909, 275423344,
    430227734, 506948616, 659060556, 883997877, 958139571, 1322822218,
    1537002063, 1747873779, 1955562222, 2024104815, 2227730452, 2361852424,
    2428436474, 2756734187, 3204031479, 3329325298]"

type_synonym sha_state = "w32 \<times> w32 \<times> w32 \<times> w32 \<times> w32 \<times> w32 \<times> w32 \<times> w32"

definition H256 :: sha_state where
  "H256 = (1779033703, 3144134277, 1013904242, 2773480762,
           1359893119, 2600822924, 528734635, 1541459225)"

definition rotr :: "nat \<Rightarrow> w32 \<Rightarrow> w32" where
  "rotr n x = (drop_bit n x) OR (push_bit (32 - n) x)"

definition small_sigma0 :: "w32 \<Rightarrow> w32" where
  "small_sigma0 x = rotr 7 x XOR rotr 18 x XOR drop_bit 3 x"

definition small_sigma1 :: "w32 \<Rightarrow> w32" where
  "small_sigma1 x = rotr 17 x XOR rotr 19 x XOR drop_bit 10 x"

definition big_sigma0 :: "w32 \<Rightarrow> w32" where
  "big_sigma0 x = rotr 2 x XOR rotr 13 x XOR rotr 22 x"

definition big_sigma1 :: "w32 \<Rightarrow> w32" where
  "big_sigma1 x = rotr 6 x XOR rotr 11 x XOR rotr 25 x"

definition sha_pad :: "byte list \<Rightarrow> byte list" where
  "sha_pad msg = msg @ [0x80] @ replicate ((119 - length msg mod 64) mod 64) 0
     @ map (\<lambda>i. of_nat ((8 * length msg) div 256 ^ (7 - i))) [0 ..< 8]"

fun chunks :: "nat \<Rightarrow> 'a list \<Rightarrow> 'a list list" where
  "chunks n xs = (if n = 0 \<or> xs = [] then [] else take n xs # chunks n (drop n xs))"

definition be_word :: "byte list \<Rightarrow> w32" where
  "be_word bs = foldl (\<lambda>w b. push_bit 8 w OR ucast b) 0 bs"

fun extend_schedule :: "nat \<Rightarrow> w32 list \<Rightarrow> w32 list" where
  "extend_schedule 0 ws = ws"
| "extend_schedule (Suc k) ws =
     (let n = length ws in
      extend_schedule k (ws @ [small_sigma1 (ws ! (n - 2)) + ws ! (n - 7)
                               + small_sigma0 (ws ! (n - 15)) + ws ! (n - 16)]))"

definition sha_round :: "sha_state \<Rightarrow> w32 \<times> w32 \<Rightarrow> sha_state" where
  "sha_round st kw =
     (case st of (a, b, c, d, e, f, g, h) \<Rightarrow>
        let t1 = h + big_sigma1 e + ((e AND f) XOR (NOT e AND g)) + fst kw + snd kw;
            t2 = big_sigma0 a + ((a AND b) XOR (a AND c) XOR (b AND c))
        in (t1 + t2, a, b, c, d + t1, e, f, g))"

definition sha_compress :: "sha_state \<Rightarrow> byte list \<Rightarrow> sha_state" where
  "sha_compress st block =
     (case st of (a, b, c, d, e, f, g, h) \<Rightarrow>
      case foldl sha_round st (zip K256 (extend_schedule 48 (map be_word (chunks 4 block)))) of
        (a', b', c', d', e', f', g', h') \<Rightarrow>
          (a + a', b + b', c + c', d + d', e + e', f + f', g + g', h + h'))"

definition word_bytes :: "w32 \<Rightarrow> byte list" where
  "word_bytes w = [ucast (drop_bit 24 w), ucast (drop_bit 16 w), ucast (drop_bit 8 w), ucast w]"

definition sha256 :: "byte list \<Rightarrow> byte list" where
  "sha256 msg =
     (case foldl sha_compress H256 (chunks 64 (sha_pad msg)) of
        (a, b, c, d, e, f, g, h) \<Rightarrow> concat (map word_bytes [a, b, c, d, e, f, g, h]))"

definition hmac_sha256 :: "byte list \<Rightarrow> byte list \<Rightarrow> byte list" where
  "hmac_sha256 key msg =
     (let k0 = (if length key > 64 then sha256 key else key);
          k = k0 @ replicate (64 - length k0) 0
      in sha256 (map (\<lambda>b. b XOR 0x5c) k @ sha256 (map (\<lambda>b. b XOR 0x36) k @ msg)))"

definition hex_byte :: "byte \<Rightarrow> string" where
  "hex_byte b = [digit_char (unat b div 16), digit_char (unat b mod 16)]"

definition hexdigest :: "byte list \<Rightarrow> string" where
  "hexdigest bs = concat (map hex_byte bs)"

section \<open>privacy.py: IP anonymisation and the consent gate\<close>

text \<open>
  Each function that can raise returns \<open>exn + result\<close>.  \<open>truncate_ip\<close> and \<open>hash_ip\<close>
  wrap their bodies in \<open>try ... except Exception\<close>; the handler's fallback value is the
  \<open>Inl\<close> branch below.  (The log calls are left out.)
\<close>

definition truncate_ip_body :: "string \<Rightarrow> exn + string" where
  "truncate_ip_body ip_str =
     bind_exn (ip_address ip_str) (\<lambda>ip.
       case ip of
         IPv4Address n \<Rightarrow> Inr (ipv4_string (network_address 32 24 n))
       | IPv6Address n scope_id \<Rightarrow>
           Inr (ipv6_string (network_address 128 48 n)
                @ (case scope_id of
                     Some s \<Rightarrow> if network_address 128 48 n = n then ''%'' @ s else []
                   | None \<Rightarrow> [])))"

definition truncate_ip :: "string \<Rightarrow> exn + string" where
  "truncate_ip ip_str =
     (case truncate_ip_body ip_str of Inr s \<Rightarrow> Inr s | Inl e \<Rightarrow> Inr ''0.0.0.0'')"

definition hash_ip_body :: "string \<Rightarrow> string \<Rightarrow> exn + string" where
  "hash_ip_body ip_str salt =
     bind_exn (encode salt) (\<lambda>key.
     bind_exn (encode ip_str) (\<lambda>msg.
       Inr (hexdigest (hmac_sha256 key msg))))"

definition hash_ip :: "string \<Rightarrow> string \<Rightarrow> exn + string" where
  "hash_ip ip_str salt =
     (case hash_ip_body ip_str salt of Inr h \<Rightarrow> Inr h | Inl e \<Rightarrow> Inr [])"

definition process_ip_data :: "string \<Rightarrow> string \<Rightarrow> exn + (string \<times> pyval) list" where
  "process_ip_data ip_str salt =
     bind_exn (truncate_ip ip_str) (\<lambda>t.
     bind_exn (hash_ip ip_str salt) (\<lambda>h.
       Inr [(''ip_trunc'', PStr t), (''ip_hash'', PStr h)]))"

text \<open>
  \<open>validate_consent\<close> calls \<open>consent_flags.get("analytics", False)\<close>.  A \<open>dict\<close> has
  \<open>get\<close>; an instance of the pydantic model \<open>ConsentFlags\<close> has its declared fields as
  attributes and no \<open>get\<close>, so the attribute lookup raises.
\<close>

record ConsentFlags =
  analytics :: bool
  marketing :: "bool option"
  functional :: bool

datatype consent_arg = AsDict pydict | AsModel ConsentFlags

fun validate_consent :: "consent_arg \<Rightarrow> exn + pyval" where
  "validate_consent (AsDict consent_flags) =
     Inr (case dict_get consent_flags ''analytics'' of None \<Rightarrow> PBool False | Some v \<Rightarrow> v)"
| "validate_consent (AsModel consent_flags) = Inl AttributeError"

section \<open>python_schemas.py: the envelope\<close>

record DeviceInfo =
  dev_type :: string
  os :: string
  browser :: "string option"

record EventEnvelope =
  app_id :: string
  schema_version :: string
  event_type :: string
  ts :: datetime
  session_id :: string
  guest_pseudonymous_id :: string
  device :: DeviceInfo
  app_version :: string
  consent_flags :: ConsentFlags
  ip_raw :: "string option"

definition opt_str :: "string option \<Rightarrow> pyval" where
  "opt_str x = (case x of None \<Rightarrow> PNone | Some s \<Rightarrow> PStr s)"

definition opt_bool :: "bool option \<Rightarrow> pyval" where
  "opt_bool x = (case x of None \<Rightarrow> PNone | Some b \<Rightarrow> PBool b)"

text \<open>\<open>envelope.dict()\<close>: every declared field, nested models as dicts.\<close>

definition envelope_dict :: "EventEnvelope \<Rightarrow> pydict" where
  "envelope_dict e =
     [(''app_id'', PStr (app_id e)),
      (''schema_version'', PStr (schema_version e)),
      (''event_type'', PStr (event_type e)),
      (''ts'', PDatetime (ts e)),
      (''session_id'', PStr (session_id e)),
      (''guest_pseudonymous_id'', PStr (guest_pseudonymous_id e)),
      (''device'', PDict [(''type'', PStr (dev_type (device e))),
                          (''os'', PStr (os (device e))),
                          (''browser'', opt_str (browser (device e)))]),
      (''app_version'', PStr (app_version e)),
      (''consent_flags'', PDict [(''analytics'', PBool (analytics (consent_flags e))),
                                 (''marketing'', opt_bool (marketing (consent_flags e))),
                                 (''functional'', PBool (functional (consent_flags e)))]),
      (''ip_raw'', opt_str (ip_raw e))]"

section \<open>database.py: \<open>store_event\<close>\<close>

record Event =
  ev_id :: string
  ev_event_type :: pyval
  ev_ts :: pyval
  ev_session_id :: pyval
  ev_guest_id :: pyval
  ev_data :: pydict
  ev_ip_data :: pyval
  ev_received_at :: datetime

text \<open>
  The store: the rows committed so far, the id \<open>uuid.uuid4()\<close> hands out next, the clock,
  and whether the next commit fails.
\<close>

record Db =
  events :: "Event list"
  uuid4 :: string
  utcnow :: datetime
  commit_fails :: bool

definition get_or_none :: "pydict \<Rightarrow> string \<Rightarrow> pyval" where
  "get_or_none d k = (case dict_get d k of None \<Rightarrow> PNone | Some v \<Rightarrow> v)"

definition store_event :: "Db \<Rightarrow> pydict \<Rightarrow> exn + pydict \<times> Db" where
  "store_event db event_data =
     (let event_id = uuid4 db;
          envelope = (case dict_get event_data ''envelope'' of Some (PDict e) \<Rightarrow> e | _ \<Rightarrow> []);
          event = \<lparr>ev_id = event_id,
                   ev_event_type = get_or_none envelope ''event_type'',
                   ev_ts = get_or_none envelope ''ts'',
                   ev_session_id = get_or_none envelope ''session_id'',
                   ev_guest_id = get_or_none envelope ''guest_pseudonymous_id'',
                   ev_data = envelope,
                   ev_ip_data = get_or_none event_data ''ip_data'',
                   ev_received_at = utcnow db\<rparr>
      in if commit_fails db then Inl DatabaseError
         else Inr (dict_set event_data ''id'' (PStr event_id),
                   db\<lparr>events := events db @ [event]\<rparr>))"

section \<open>main.py: \<open>ingest_event\<close>\<close>

record Config =
  STORE_RAW_IP :: bool
  SOURCE_APP :: string
  IP_SALT :: string

text \<open>
  The modules \<open>geo\<close> and \<open>metrics\<close> are not part of the sources at hand; their two
  functions are parameters of the handler.
\<close>

record Collab =
  get_geo_data :: "string \<Rightarrow> exn + pyval"
  track_event :: "string \<Rightarrow> string \<Rightarrow> exn + unit"

text \<open>Of the request the handler reads the \<open>DNT\<close> header and \<open>request.client.host\<close>.\<close>

record Request =
  dnt :: "string option"
  client_host :: string

text \<open>Lines 110 to 117: \<open>ip_data\<close> after the IP step.\<close>

definition ingest_ip_data :: "Config \<Rightarrow> Collab \<Rightarrow> Request \<Rightarrow> EventEnvelope \<Rightarrow> exn + pyval" where
  "ingest_ip_data cfg col request envelope =
     (let client_ip = (case ip_raw envelope of
                         Some s \<Rightarrow> if s \<noteq> [] then s else client_host request
                       | None \<Rightarrow> client_host request)
      in if client_ip \<noteq> [] \<and> \<not> STORE_RAW_IP cfg then
           bind_exn (process_ip_data client_ip (IP_SALT cfg)) (\<lambda>ip_data.
           bind_exn (get_geo_data col client_ip) (\<lambda>geo_data.
             if truthy geo_data then
               (case geo_data of
                  PDict g \<Rightarrow> Inr (PDict (dict_update ip_data g))
                | _ \<Rightarrow> Inl TypeError)
             else Inr (PDict ip_data)))
         else Inr PNone)"

text \<open>Lines 126 to 130: the record that goes to the store.\<close>

definition assemble_event_data :: "EventEnvelope \<Rightarrow> pyval \<Rightarrow> string \<Rightarrow> pydict" where
  "assemble_event_data envelope ip_data received_at =
     [(''envelope'', PDict (envelope_dict envelope)),
      (''ip_data'', ip_data),
      (''received_at'', PStr received_at)]"

text \<open>Lines 125 to 142: what the handler does once consent is given.\<close>

definition ingest_event_store ::
  "Collab \<Rightarrow> EventEnvelope \<Rightarrow> pyval \<Rightarrow> string \<Rightarrow> Db \<Rightarrow> exn + pydict \<times> Db" where
  "ingest_event_store col envelope ip_data received_at db =
     (let event_data = assemble_event_data envelope ip_data received_at in
      bind_exn (track_event col (event_type envelope) (guest_pseudonymous_id envelope)) (\<lambda>_.
      bind_exn (store_event db event_data) (\<lambda>stored.
        Inr ([(''status'', PStr ''ok''), (''event_id'', get_or_none (fst stored) ''id'')],
             snd stored))))"

text \<open>The body of the \<open>try\<close> block.\<close>

definition ingest_event_body ::
  "Config \<Rightarrow> Collab \<Rightarrow> Request \<Rightarrow> EventEnvelope \<Rightarrow> string \<Rightarrow> Db \<Rightarrow> exn + pydict \<times> Db" where
  "ingest_event_body cfg col request envelope received_at db =
     (if app_id envelope \<noteq> SOURCE_APP cfg then Inl (HTTPException 400 ''Invalid app_id'')
      else if dnt request = Some ''1'' then
        Inr ([(''status'', PStr ''ok''), (''dnt'', PBool True)], db)
      else
        bind_exn (ingest_ip_data cfg col request envelope) (\<lambda>ip_data.
        bind_exn (validate_consent (AsModel (consent_flags envelope))) (\<lambda>consent.
          if \<not> truthy consent then
            Inr ([(''status'', PStr ''ok''), (''consent'', PBool False)], db)
          else ingest_event_store col envelope ip_data received_at db)))"

text \<open>
  The handler: \<open>except Exception\<close> catches whatever the body raises, the
  \<open>HTTPException\<close> of the first check included, and raises status 500.
\<close>

definition ingest_event ::
  "Config \<Rightarrow> Collab \<Rightarrow> Request \<Rightarrow> EventEnvelope \<Rightarrow> string \<Rightarrow> Db \<Rightarrow> exn + pydict \<times> Db" where
  "ingest_event cfg col request envelope received_at db =
     (case ingest_event_body cfg col request envelope received_at db of
        Inr r \<Rightarrow> Inr r
      | Inl e \<Rightarrow> Inl (HTTPException 500 ''Internal server error''))"

section \<open>Webhook signatures\<close>

text \<open>
  \<open>json.dumps(payload, sort_keys=True)\<close> with the default separators and
  \<open>ensure_ascii\<close>: the items of every \<open>dict\<close> are written in the order of their keys.
  A \<open>datetime\<close> is not serialisable.
\<close>

definition hex4 :: "nat \<Rightarrow> string" where
  "hex4 n = [digit_char (n div 4096 mod 16), digit_char (n div 256 mod 16),
             digit_char (n div 16 mod 16), digit_char (n mod 16)]"

definition json_escape :: "char \<Rightarrow> string" where
  "json_escape c =
     (if c = CHR 0x22 then [CHR 0x5C, CHR 0x22]
      else if c = CHR 0x5C then [CHR 0x5C, CHR 0x5C]
      else if c = CHR 0x0A then [CHR 0x5C, CHR ''n'']
      else if c = CHR 0x0D then [CHR 0x5C, CHR ''r'']
      else if c = CHR 0x09 then [CHR 0x5C, CHR ''t'']
      else if c = CHR 0x08 then [CHR 0x5C, CHR ''b'']
      else if c = CHR 0x0C then [CHR 0x5C, CHR ''f'']
      else if code c < 32 \<or> 126 < code c then [CHR 0x5C, CHR ''u''] @ hex4 (code c)
      else [c])"

definition json_string :: "string \<Rightarrow> string" where
  "json_string s = [CHR 0x22] @ concat (map json_escape s) @ [CHR 0x22]"

definition str_int :: "int \<Rightarrow> string" where
  "str_int n = (if n < 0 then ''-'' @ str_nat (nat (- n)) else str_nat (nat n))"

fun json_dumps :: "pyval \<Rightarrow> exn + string" where
  "json_dumps PNone = Inr ''null''"
| "json_dumps (PBool b) = Inr (if b then ''true'' else ''false'')"
| "json_dumps (PInt n) = Inr (str_int n)"
| "json_dumps (PStr s) = Inr (json_string s)"
| "json_dumps (PList xs) =
     bind_exn (all_or_raise (map json_dumps xs)) (\<lambda>ps. Inr (''['' @ join '', '' ps @ '']''))"
| "json_dumps (PDict d) =
     bind_exn (all_or_raise (map (\<lambda>kv. bind_exn (json_dumps (snd kv)) (\<lambda>v. Inr (fst kv, v))) d))
       (\<lambda>items. Inr (''{'' @ join '', '' (map (\<lambda>kv. json_string (fst kv) @ '': '' @ snd kv)
                                            (sort_key fst items)) @ ''}''))"
| "json_dumps (PDatetime t) = Inl TypeError"

text \<open>test_integration.py: \<open>generate_webhook_signature\<close>, for the secret \<open>HMAC_SECRET\<close>.\<close>

definition generate_webhook_signature :: "string \<Rightarrow> pyval \<Rightarrow> exn + string" where
  "generate_webhook_signature HMAC_SECRET payload =
     bind_exn (json_dumps payload) (\<lambda>message.
     bind_exn (encode HMAC_SECRET) (\<lambda>key.
     bind_exn (encode message) (\<lambda>msg.
       Inr (hexdigest (hmac_sha256 key msg)))))"

text \<open>
  \<open>hmac.compare_digest\<close> compares in constant time, which shows in its duration only:
  its result is equality.
\<close>

definition compare_digest :: "string \<Rightarrow> string \<Rightarrow> bool" where
  "compare_digest a b = (a = b)"

text \<open>
  Modelled from the spec: \<open>verify_webhook_signature\<close>, whose module \<open>webhooks\<close> is not
  among the sources.  The specification has it serialise the payload with sorted keys,
  take the HMAC-SHA256 of that under the secret, hex-encode it and compare the result
  with the signature supplied in constant time; any failure is the answer \<open>False\<close>, not
  an exception.
\<close>

definition verify_webhook_signature :: "pyval \<Rightarrow> string \<Rightarrow> string \<Rightarrow> bool" where
  "verify_webhook_signature payload signature secret =
     (case generate_webhook_signature secret payload of
        Inr expected \<Rightarrow> compare_digest expected signature
      | Inl e \<Rightarrow> False)"

section \<open>Auxiliary notions for the statements below\<close>

text \<open>The pieces of \<open>redact_json\<close>'s loop body, named.\<close>

definition fields_of :: "string list option \<Rightarrow> string list" where
  "fields_of fs = (case fs of None \<Rightarrow> default_fields | Some f \<Rightarrow> f)"

definition redact_item :: "string list \<Rightarrow> pyval \<Rightarrow> pyval" where
  "redact_item fl item =
     (case item of
        PDict d \<Rightarrow> PDict (redact_json d (Some fl))
      | PStr s \<Rightarrow> PStr (redact_pii s)
      | _ \<Rightarrow> item)"

definition redact_entry :: "string list \<Rightarrow> string \<times> pyval \<Rightarrow> string \<times> pyval" where
  "redact_entry fl kv =
     (if fst kv \<in> set fl then (fst kv, PStr ''[REDACTED]'')
      else (case snd kv of
           PStr s \<Rightarrow> (fst kv, PStr (redact_pii s))
         | PDict d \<Rightarrow> (fst kv, PDict (redact_json d (Some fl)))
         | PList items \<Rightarrow> (fst kv, PList (map (redact_item fl) items))
         | _ \<Rightarrow> kv))"


text \<open>The inputs of the specification's end-to-end example.\<close>

definition example_envelope :: EventEnvelope where
  "example_envelope =
     \<lparr>app_id = ''CBC-Agent'', schema_version = ''1.0.0'', event_type = ''page_view'',
      ts = 0, session_id = ''ses_1'', guest_pseudonymous_id = ''guest_1'',
      device = \<lparr>dev_type = ''desktop'', os = ''linux'', browser = None\<rparr>,
      app_version = ''1.0.0'',
      consent_flags = \<lparr>analytics = True, marketing = None, functional = True\<rparr>,
      ip_raw = Some ''203.0.113.77''\<rparr>"

definition default_config :: Config where
  "default_config =
     \<lparr>STORE_RAW_IP = False, SOURCE_APP = ''CBC-Agent'', IP_SALT = ''rotate-quarterly''\<rparr>"

definition quiet_collab :: Collab where
  "quiet_collab = \<lparr>get_geo_data = (\<lambda>ip. Inr PNone), track_event = (\<lambda>t g. Inr ())\<rparr>"

definition plain_request :: Request where
  "plain_request = \<lparr>dnt = None, client_host = ''198.51.100.7''\<rparr>"

definition empty_db :: Db where
  "empty_db = \<lparr>events = [], uuid4 = ''id-1'', utcnow = 0, commit_fails = False\<rparr>"

text \<open>
  Two values that differ at most in the order in which the items of their maps were
  inserted: the same keys on both sides, and under each key values that are again the
  same up to that order.
\<close>

inductive same_up_to_key_order :: "pyval \<Rightarrow> pyval \<Rightarrow> bool" where
  same_value: "same_up_to_key_order v v"
| same_list: "length xs = length ys \<Longrightarrow>
     (\<And>i. i < length xs \<Longrightarrow> same_up_to_key_order (xs ! i) (ys ! i)) \<Longrightarrow>
     same_up_to_key_order (PList xs) (PList ys)"
| same_dict: "distinct (map fst d) \<Longrightarrow> distinct (map fst d') \<Longrightarrow>
     set (map fst d) = set (map fst d') \<Longrightarrow>
     (\<And>k v v'. (k, v) \<in> set d \<Longrightarrow> (k, v') \<in> set d' \<Longrightarrow> same_up_to_key_order v v') \<Longrightarrow>
     same_up_to_key_order (PDict d) (PDict d')"

section \<open>What a regular expression matches\<close>

text \<open>
  \<open>lang r w zs nx\<close>: the expression \<open>r\<close> can consume exactly the text \<open>zs\<close> when the
  character before \<open>zs\<close> is a word character iff \<open>w\<close>, and the character after it is
  one iff \<open>nx\<close>.  The two flags matter to \<open>\b\<close> only.
\<close>

fun last_is_word :: "bool \<Rightarrow> string \<Rightarrow> bool" where
  "last_is_word w [] = w"
| "last_is_word w (c # cs) = last_is_word (is_word c) cs"

fun first_is_word :: "string \<Rightarrow> bool \<Rightarrow> bool" where
  "first_is_word [] nx = nx"
| "first_is_word (c # cs) nx = is_word c"

fun lang :: "regex \<Rightarrow> bool \<Rightarrow> string \<Rightarrow> bool \<Rightarrow> bool" where
  "lang Eps w zs nx = (zs = [])"
| "lang (Cls p) w zs nx = (case zs of [c] \<Rightarrow> p c | _ \<Rightarrow> False)"
| "lang (Seq a b) w zs nx =
     (\<exists>k\<le>length zs. lang a w (take k zs) (first_is_word (drop k zs) nx)
                    \<and> lang b (last_is_word w (take k zs)) (drop k zs) nx)"
| "lang (Opt a) w zs nx = (zs = [] \<or> lang a w zs nx)"
| "lang (Plus p) w zs nx = (zs \<noteq> [] \<and> list_all p zs)"
| "lang WordB w zs nx = (zs = [] \<and> w \<noteq> nx)"

text \<open>The characters a match can contain, its least length, and whether \<open>\b\<close> occurs.\<close>

fun alph :: "regex \<Rightarrow> char \<Rightarrow> bool" where
  "alph Eps c = False"
| "alph (Cls p) c = p c"
| "alph (Seq a b) c = (alph a c \<or> alph b c)"
| "alph (Opt a) c = alph a c"
| "alph (Plus p) c = p c"
| "alph WordB c = False"

fun minlen :: "regex \<Rightarrow> nat" where
  "minlen Eps = 0"
| "minlen (Cls p) = 1"
| "minlen (Seq a b) = minlen a + minlen b"
| "minlen (Opt a) = 0"
| "minlen (Plus p) = 1"
| "minlen WordB = 0"

fun no_boundary :: "regex \<Rightarrow> bool" where
  "no_boundary Eps = True"
| "no_boundary (Cls p) = True"
| "no_boundary (Seq a b) = (no_boundary a \<and> no_boundary b)"
| "no_boundary (Opt a) = no_boundary a"
| "no_boundary (Plus p) = True"
| "no_boundary WordB = False"

text \<open>\<open>needs r P\<close>: every match of \<open>r\<close> has a character with the property \<open>P\<close>.\<close>

fun needs :: "regex \<Rightarrow> (char \<Rightarrow> bool) \<Rightarrow> bool" where
  "needs Eps P = False"
| "needs (Cls p) P = (\<forall>c. p c \<longrightarrow> P c)"
| "needs (Seq a b) P = (needs a P \<or> needs b P)"
| "needs (Opt a) P = False"
| "needs (Plus p) P = (\<forall>c. p c \<longrightarrow> P c)"
| "needs WordB P = False"

text \<open>
  The characters of the placeholders, and what the argument below asks of a
  placeholder and of the inner part of a pattern.
\<close>

definition ph_char :: "char \<Rightarrow> bool" where
  "ph_char c = (c = CHR ''['' \<or> c = CHR '']'' \<or> c = CHR ''_'' \<or> is_upper c)"

definition placeholder :: "string \<Rightarrow> bool" where
  "placeholder ph = (ph \<noteq> [] \<and> hd ph = CHR ''['' \<and> last ph = CHR '']'' \<and> list_all ph_char ph)"

definition plain_core :: "regex \<Rightarrow> bool" where
  "plain_core r = (no_boundary r \<and> 0 < minlen r \<and> \<not> alph r CHR ''['' \<and> \<not> alph r CHR '']''
     \<and> needs r (\<lambda>c. \<not> ph_char c))"

text \<open>\<open>nomatch r w xs\<close>: the pattern \<open>r\<close> matches at no position of the text \<open>xs\<close>.\<close>

fun nomatch :: "regex \<Rightarrow> bool \<Rightarrow> string \<Rightarrow> bool" where
  "nomatch r w [] = (run r (w, []) = [])"
| "nomatch r w (c # cs) = (run r (w, c # cs) = [] \<and> nomatch r (is_word c) cs)"

section \<open>Evaluation rules\<close>

text \<open>
  The recursive equations of these functions are unconditional; they are used only where
  the argument is a numeral or a literal.
\<close>

declare chunks.simps [simp del] str_nat.simps [simp del] hex_nat.simps [simp del]
declare redact_json.simps [simp del]



section \<open>\<open>redact_json\<close>: what it rewrites and what it keeps\<close>

lemma redact_json_map: "redact_json data fs = map (redact_entry (fields_of fs)) data"
  unfolding redact_entry_def redact_item_def fields_of_def
  by (subst redact_json.simps[of data fs]) (simp add: Let_def)

lemma fields_of_Some [simp]: "fields_of (Some fl) = fl"
  by (simp add: fields_of_def)

lemma fields_of_None [simp]: "fields_of None = default_fields"
  by (simp add: fields_of_def)

lemma redact_json_keys: "map fst (redact_json data fs) = map fst data"
  by (simp add: redact_json_map comp_def redact_entry_def split: pyval.splits)

lemma redact_json_sensitive:
  "i < length data \<Longrightarrow> fst (data ! i) \<in> set (fields_of fs) \<Longrightarrow>
   snd (redact_json data fs ! i) = PStr ''[REDACTED]''"
  by (simp add: redact_json_map redact_entry_def)

lemma redact_json_dict:
  "i < length data \<Longrightarrow> fst (data ! i) \<notin> set (fields_of fs) \<Longrightarrow> snd (data ! i) = PDict d \<Longrightarrow>
   snd (redact_json data fs ! i) = PDict (redact_json d (Some (fields_of fs)))"
  by (simp add: redact_json_map redact_entry_def)

lemma redact_json_list:
  "i < length data \<Longrightarrow> fst (data ! i) \<notin> set (fields_of fs) \<Longrightarrow> snd (data ! i) = PList xs \<Longrightarrow>
   snd (redact_json data fs ! i) = PList (map (redact_item (fields_of fs)) xs)"
  by (simp add: redact_json_map redact_entry_def)

lemma redact_json_scalar:
  "i < length data \<Longrightarrow> fst (data ! i) \<notin> set (fields_of fs) \<Longrightarrow>
   \<not> is_container_or_str (snd (data ! i)) \<Longrightarrow>
   snd (redact_json data fs ! i) = snd (data ! i)"
  by (cases "snd (data ! i)") (simp_all add: redact_json_map redact_entry_def)

lemma redact_item_cases:
  "(\<forall>d. x = PDict d \<longrightarrow> redact_item fl x = PDict (redact_json d (Some fl)))
   \<and> (\<forall>s. x = PStr s \<longrightarrow> redact_item fl x = PStr (redact_pii s))
   \<and> ((\<forall>d. x \<noteq> PDict d) \<and> (\<forall>s. x \<noteq> PStr s) \<longrightarrow> redact_item fl x = x)"
  by (auto simp: redact_item_def split: pyval.splits)

text \<open>
  Claim C6.  The claim: for every finite structured value, after \<open>redact_json\<close> no map
  entry under a sensitive key keeps its value, at every nesting depth, maps inside
  sequences and sequences inside sequences included.  The code does not descend into a
  list that is itself an item of a list: \<open>{"items": [[{"email": "a@b.com"}]]}\<close> comes
  back unchanged, the address still under the key \<open>email\<close>.
\<close>

theorem redact_json_skips_list_in_list:
  "redact_json [(''items'', PList [PList [PDict [(''email'', PStr ''a@b.com'')]]])] None
     = [(''items'', PList [PList [PDict [(''email'', PStr ''a@b.com'')]]])]
   \<and> \<not> no_sensitive_left default_fields
         (PDict (redact_json [(''items'', PList [PList [PDict [(''email'', PStr ''a@b.com'')]]])] None))"
  by (simp add: redact_json_map redact_entry_def default_fields_def redact_item_def)

text \<open>
  Claim C10, as the claim states it: every value that is neither a string, a map nor a
  list is returned unchanged.  An integer under the key \<open>ssn\<close> is not: the entry
  becomes the placeholder.
\<close>

theorem redact_json_scalar_under_sensitive_key_changes:
  "\<not> is_container_or_str (PInt 5)
   \<and> redact_json [(''ssn'', PInt 5)] None \<noteq> [(''ssn'', PInt 5)]"
  by (simp add: redact_json_map redact_entry_def default_fields_def)

text \<open>
  Claim C10, amended.  \<open>redact_json\<close> returns a map with the keys of its input, in the
  same order.  An entry whose key is in \<open>fields_to_redact\<close> gets the value
  \<open>[REDACTED]\<close>, whatever it held.  Of the other entries, a map is rewritten by
  \<open>redact_json\<close> itself (so the same holds one level down), a list keeps its length and
  the order of its items, each item rewritten in place (a map by \<open>redact_json\<close>, a string
  by \<open>redact_pii\<close>, anything else kept), and a value that is neither a string, a map nor a
  list is returned unchanged.  The function only reads its argument.
\<close>

theorem redact_json_preserves_shape:
  "map fst (redact_json data fs) = map fst data
   \<and> (\<forall>i<length data.
        (fst (data ! i) \<in> set (fields_of fs) \<longrightarrow>
           snd (redact_json data fs ! i) = PStr ''[REDACTED]'')
      \<and> (fst (data ! i) \<notin> set (fields_of fs) \<longrightarrow>
          (\<forall>d. snd (data ! i) = PDict d \<longrightarrow>
             snd (redact_json data fs ! i) = PDict (redact_json d (Some (fields_of fs))))
        \<and> (\<forall>xs. snd (data ! i) = PList xs \<longrightarrow>
             (\<exists>ys. snd (redact_json data fs ! i) = PList ys \<and> length ys = length xs
                \<and> (\<forall>j<length xs.
                     (\<forall>d. xs ! j = PDict d \<longrightarrow>
                        ys ! j = PDict (redact_json d (Some (fields_of fs))))
                   \<and> (\<forall>s. xs ! j = PStr s \<longrightarrow> ys ! j = PStr (redact_pii s))
                   \<and> ((\<forall>d. xs ! j \<noteq> PDict d) \<and> (\<forall>s. xs ! j \<noteq> PStr s) \<longrightarrow>
                        ys ! j = xs ! j))))
        \<and> (\<not> is_container_or_str (snd (data ! i)) \<longrightarrow>
             snd (redact_json data fs ! i) = snd (data ! i))))"
proof (intro conjI allI impI)
  show "map fst (redact_json data fs) = map fst data"
    by (rule redact_json_keys)
next
  fix i assume "i < length data" "fst (data ! i) \<in> set (fields_of fs)"
  then show "snd (redact_json data fs ! i) = PStr ''[REDACTED]''"
    by (rule redact_json_sensitive)
next
  fix i d
  assume "i < length data" "fst (data ! i) \<notin> set (fields_of fs)" "snd (data ! i) = PDict d"
  then show "snd (redact_json data fs ! i) = PDict (redact_json d (Some (fields_of fs)))"
    by (rule redact_json_dict)
next
  fix i xs
  assume h: "i < length data" "fst (data ! i) \<notin> set (fields_of fs)" "snd (data ! i) = PList xs"
  let ?ys = "map (redact_item (fields_of fs)) xs"
  have out: "snd (redact_json data fs ! i) = PList ?ys"
    using h by (rule redact_json_list)
  have items: "\<forall>j<length xs.
      (\<forall>d. xs ! j = PDict d \<longrightarrow> ?ys ! j = PDict (redact_json d (Some (fields_of fs))))
    \<and> (\<forall>s. xs ! j = PStr s \<longrightarrow> ?ys ! j = PStr (redact_pii s))
    \<and> ((\<forall>d. xs ! j \<noteq> PDict d) \<and> (\<forall>s. xs ! j \<noteq> PStr s) \<longrightarrow> ?ys ! j = xs ! j)"
    using redact_item_cases by simp
  show "\<exists>ys. snd (redact_json data fs ! i) = PList ys \<and> length ys = length xs
      \<and> (\<forall>j<length xs.
           (\<forall>d. xs ! j = PDict d \<longrightarrow> ys ! j = PDict (redact_json d (Some (fields_of fs))))
         \<and> (\<forall>s. xs ! j = PStr s \<longrightarrow> ys ! j = PStr (redact_pii s))
         \<and> ((\<forall>d. xs ! j \<noteq> PDict d) \<and> (\<forall>s. xs ! j \<noteq> PStr s) \<longrightarrow> ys ! j = xs ! j))"
    using out items by (intro exI[of _ ?ys]) simp
next
  fix i
  assume "i < length data" "fst (data ! i) \<notin> set (fields_of fs)"
    "\<not> is_container_or_str (snd (data ! i))"
  then show "snd (redact_json data fs ! i) = snd (data ! i)"
    by (rule redact_json_scalar)
qed

theorem redact_json_preserves_shape_witness:
  "map fst (redact_json [(''count'', PInt 3), (''name'', PInt 7), (''tags'', PList [PInt 1, PList []])] None)
     = [''count'', ''name'', ''tags'']
   \<and> snd (redact_json [(''count'', PInt 3), (''name'', PInt 7), (''tags'', PList [PInt 1, PList []])] None ! 0)
     = PInt 3
   \<and> snd (redact_json [(''count'', PInt 3), (''name'', PInt 7), (''tags'', PList [PInt 1, PList []])] None ! 1)
     = PStr ''[REDACTED]''"
  using redact_json_preserves_shape
    [of "[(''count'', PInt 3), (''name'', PInt 7), (''tags'', PList [PInt 1, PList []])]" None]
  by (simp add: default_fields_def)

section \<open>IP anonymisation\<close>

lemma length_sha256: "length (sha256 m) = 32"
  by (simp add: sha256_def word_bytes_def split: prod.splits)

lemma length_hexdigest: "length (hexdigest bs) = 2 * length bs"
  by (induction bs) (simp_all add: hexdigest_def hex_byte_def)

lemma length_hmac_hexdigest: "length (hexdigest (hmac_sha256 k m)) = 64"
  by (simp add: length_hexdigest hmac_sha256_def Let_def length_sha256)












section \<open>The ingestion handler\<close>











text \<open>
  Claim C4.  The claim: an envelope whose app identifier differs from the configured
  source is answered with status 400.  The handler raises that \<open>HTTPException\<close> inside
  its own \<open>try\<close> block, whose \<open>except Exception\<close> clause catches it and raises status
  500 in its place.
\<close>

theorem app_id_mismatch_answers_500:
  "app_id envelope \<noteq> SOURCE_APP cfg \<Longrightarrow>
   ingest_event_body cfg col request envelope received_at db
     = Inl (HTTPException 400 ''Invalid app_id'')
   \<and> ingest_event cfg col request envelope received_at db
     = Inl (HTTPException 500 ''Internal server error'')"
  by (simp add: ingest_event_def ingest_event_body_def)

theorem app_id_mismatch_answers_500_witness:
  "ingest_event (default_config\<lparr>SOURCE_APP := ''CBC-Analytics''\<rparr>) quiet_collab plain_request
     example_envelope ''t'' empty_db
   = Inl (HTTPException 500 ''Internal server error'')"
  using app_id_mismatch_answers_500
    [of example_envelope "default_config\<lparr>SOURCE_APP := ''CBC-Analytics''\<rparr>"
        quiet_collab plain_request "''t''" empty_db]
  by (simp add: example_envelope_def default_config_def)

text \<open>What the gate answers on a \<open>dict\<close>: the value under \<open>analytics\<close>, else \<open>False\<close>.\<close>

lemma validate_consent_on_dict:
  "validate_consent (AsDict []) = Inr (PBool False)"
  "validate_consent (AsDict [(''analytics'', PNone)]) = Inr PNone"
  "validate_consent (AsDict [(''analytics'', PBool b)]) = Inr (PBool b)"
  by simp_all

text \<open>
  Claim C5.  The claim: an envelope without analytics consent is answered with the
  outcome "skipped, no consent".  The handler passes \<open>envelope.consent_flags\<close>, an
  instance of the model \<open>ConsentFlags\<close>, to \<open>validate_consent\<close>, which calls \<open>get\<close> on
  it; the \<open>AttributeError\<close> is caught by the handler's \<open>except Exception\<close> clause, and
  every request that passes the app-id and DNT checks is answered with status 500,
  whatever its consent flags.  Nothing is stored.
\<close>

theorem consent_check_answers_500:
  "app_id envelope = SOURCE_APP cfg \<Longrightarrow> dnt request \<noteq> Some ''1'' \<Longrightarrow>
   ingest_event cfg col request envelope received_at db
     = Inl (HTTPException 500 ''Internal server error'')"
  by (cases "ingest_ip_data cfg col request envelope")
     (simp_all add: ingest_event_def ingest_event_body_def)

theorem consent_check_answers_500_witness:
  "ingest_event default_config quiet_collab plain_request
     (example_envelope\<lparr>consent_flags := \<lparr>analytics = False, marketing = None, functional = True\<rparr>\<rparr>)
     ''t'' empty_db
   = Inl (HTTPException 500 ''Internal server error'')"
  using consent_check_answers_500
    [of "example_envelope\<lparr>consent_flags := \<lparr>analytics = False, marketing = None, functional = True\<rparr>\<rparr>"
        default_config plain_request quiet_collab "''t''" empty_db]
  by (simp add: example_envelope_def default_config_def plain_request_def)

section \<open>Webhook signatures\<close>

lemma all_or_raise_Inl: "all_or_raise xs = Inl e \<Longrightarrow> Inl e \<in> set xs"
proof (induction xs)
  case Nil
  then show ?case by simp
next
  case (Cons x xs)
  then show ?case
    by (cases x; cases "all_or_raise xs") auto
qed

lemma all_or_raise_cases:
  "(\<forall>x\<in>set xs. \<forall>e. x = Inl e \<longrightarrow> e = TypeError) \<Longrightarrow>
   all_or_raise xs = (if \<exists>e. Inl e \<in> set xs then Inl TypeError else Inr (map projr xs))"
proof (induction xs)
  case Nil
  then show ?case by simp
next
  case (Cons x xs)
  then show ?case by (cases x) auto
qed

text \<open>The only way \<open>json.dumps\<close> fails here is on a value it cannot serialise.\<close>

lemma json_dumps_error: "json_dumps v = Inl e \<Longrightarrow> e = TypeError"
proof (induction v arbitrary: e rule: json_dumps.induct)
  case (5 xs)
  then obtain x where "x \<in> set xs" "json_dumps x = Inl e"
    by (cases "all_or_raise (map json_dumps xs)") (auto dest!: all_or_raise_Inl)
  with 5 show ?case by blast
next
  case (6 d)
  then have "Inl e \<in> set (map (\<lambda>kv. bind_exn (json_dumps (snd kv)) (\<lambda>v. Inr (fst kv, v))) d)"
    by (cases "all_or_raise (map (\<lambda>kv. bind_exn (json_dumps (snd kv)) (\<lambda>v. Inr (fst kv, v))) d)")
       (auto dest!: all_or_raise_Inl)
  then obtain kv where kv: "kv \<in> set d"
    and "bind_exn (json_dumps (snd kv)) (\<lambda>v. Inr (fst kv, v)) = Inl e"
    by auto
  then have "json_dumps (snd kv) = Inl e"
    by (cases "json_dumps (snd kv)") auto
  with 6 kv show ?case by blast
qed simp_all

lemma filter_key_distinct:
  "distinct (map fst xs) \<Longrightarrow> k \<in> set xs \<Longrightarrow> filter (\<lambda>x. fst k = fst x) xs = [k]"
proof (induction xs)
  case Nil
  then show ?case by simp
next
  case (Cons x xs)
  show ?case
  proof (cases "k = x")
    case True
    have "filter (\<lambda>y. fst x = fst y) xs = []"
      using Cons.prems(1) by (auto simp: filter_empty_conv image_iff)
    with True show ?thesis by simp
  next
    case False
    with Cons.prems have "k \<in> set xs" by simp
    moreover from this Cons.prems(1) have "fst k \<noteq> fst x" by (auto simp: image_iff)
    ultimately show ?thesis using Cons by simp
  qed
qed

text \<open>Sorting by key forgets the order of a list whose keys are pairwise distinct.\<close>

lemma sort_key_fst_perm:
  fixes xs ys :: "(string \<times> 'a) list"
  assumes "distinct (map fst xs)" and "mset xs = mset ys"
  shows "sort_key fst xs = sort_key fst ys"
proof (rule properties_for_sort_key)
  show "mset (sort_key fst ys) = mset xs" using assms(2) by simp
  show "sorted (map fst (sort_key fst ys))" by simp
  have "distinct (map fst ys)"
    using assms by (metis mset_eq_imp_distinct_iff mset_map)
  then have ds: "distinct (map fst (sort_key fst ys))"
    by (metis mset_eq_imp_distinct_iff mset_map mset_sort)
  fix k assume k: "k \<in> set (sort_key fst ys)"
  then have "k \<in> set xs" using assms(2) by (metis mset_eq_setD set_sort)
  then have "filter (\<lambda>x. fst k = fst x) xs = [k]"
    using assms(1) by (rule filter_key_distinct[rotated])
  moreover have "filter (\<lambda>x. fst k = fst x) (sort_key fst ys) = [k]"
    using ds k by (rule filter_key_distinct)
  ultimately show "filter (\<lambda>x. fst k = fst x) (sort_key fst ys)
      = filter (\<lambda>x. fst k = fst x) xs"
    by simp
qed

lemma json_dumps_dict_eq:
  assumes dd: "distinct (map fst d)" and dd': "distinct (map fst d')"
    and keys: "set (map fst d) = set (map fst d')"
    and vals: "\<And>k v v'. (k, v) \<in> set d \<Longrightarrow> (k, v') \<in> set d' \<Longrightarrow> json_dumps v = json_dumps v'"
  shows "json_dumps (PDict d) = json_dumps (PDict d')"
proof -
  let ?f = "\<lambda>kv. bind_exn (json_dumps (snd kv)) (\<lambda>v. Inr (fst kv, v))"
  let ?g = "\<lambda>kv. (fst kv, projr (json_dumps (snd kv)))"
  have p1: "\<exists>kv'\<in>set d'. fst kv' = fst kv \<and> json_dumps (snd kv') = json_dumps (snd kv)"
    if "kv \<in> set d" for kv
  proof -
    from that have "fst kv \<in> set (map fst d)" by simp
    with keys have "fst kv \<in> set (map fst d')" by simp
    then obtain kv' where kv': "kv' \<in> set d'" "fst kv' = fst kv" by auto
    have "(fst kv, snd kv) \<in> set d" using that by simp
    moreover have "(fst kv, snd kv') \<in> set d'"
      using kv' prod.collapse[of kv'] by simp
    ultimately have "(fst kv, snd kv) \<in> set d" "(fst kv, snd kv') \<in> set d'" by simp_all
    then have "json_dumps (snd kv) = json_dumps (snd kv')" by (rule vals)
    with kv' show ?thesis by auto
  qed
  have p2: "\<exists>kv\<in>set d. fst kv = fst kv' \<and> json_dumps (snd kv) = json_dumps (snd kv')"
    if "kv' \<in> set d'" for kv'
  proof -
    from that have "fst kv' \<in> set (map fst d')" by simp
    with keys have "fst kv' \<in> set (map fst d)" by simp
    then obtain kv where kv: "kv \<in> set d" "fst kv = fst kv'" by auto
    have "(fst kv', snd kv') \<in> set d'" using that by simp
    moreover have "(fst kv', snd kv) \<in> set d"
      using kv prod.collapse[of kv] by simp
    ultimately have "(fst kv', snd kv) \<in> set d" "(fst kv', snd kv') \<in> set d'" by simp_all
    then have "json_dumps (snd kv) = json_dumps (snd kv')" by (rule vals)
    with kv show ?thesis by auto
  qed
  have err: "\<forall>x\<in>set (map ?f a). \<forall>e. x = Inl e \<longrightarrow> e = TypeError" for a
  proof (intro ballI allI impI)
    fix x e assume x: "x \<in> set (map ?f a)" "x = Inl e"
    then obtain kv where "x = ?f kv" by auto
    with x(2) have "?f kv = Inl e" by simp
    then have "json_dumps (snd kv) = Inl e" by (cases "json_dumps (snd kv)") auto
    then show "e = TypeError" by (rule json_dumps_error)
  qed
  have fails: "(\<exists>e. Inl e \<in> set (map ?f a)) \<longleftrightarrow> (\<exists>kv\<in>set a. \<exists>e. json_dumps (snd kv) = Inl e)" for a
  proof
    assume "\<exists>e. Inl e \<in> set (map ?f a)"
    then obtain e kv where "kv \<in> set a" "Inl e = ?f kv" by auto
    then have "kv \<in> set a" "?f kv = Inl e" by simp_all
    moreover from this have "json_dumps (snd kv) = Inl e" by (cases "json_dumps (snd kv)") auto
    ultimately show "\<exists>kv\<in>set a. \<exists>e. json_dumps (snd kv) = Inl e" by blast
  next
    assume "\<exists>kv\<in>set a. \<exists>e. json_dumps (snd kv) = Inl e"
    then obtain kv e where "kv \<in> set a" "json_dumps (snd kv) = Inl e" by blast
    then have "Inl e \<in> set (map ?f a)" by (auto simp: image_iff intro!: bexI[of _ kv])
    then show "\<exists>e. Inl e \<in> set (map ?f a)" by blast
  qed
  have same_fail: "(\<exists>e. Inl e \<in> set (map ?f d)) \<longleftrightarrow> (\<exists>e. Inl e \<in> set (map ?f d'))"
    unfolding fails
  proof
    assume "\<exists>kv\<in>set d. \<exists>e. json_dumps (snd kv) = Inl e"
    then obtain kv e where "kv \<in> set d" "json_dumps (snd kv) = Inl e" by blast
    with p1[of kv] show "\<exists>kv\<in>set d'. \<exists>e. json_dumps (snd kv) = Inl e" by auto
  next
    assume "\<exists>kv\<in>set d'. \<exists>e. json_dumps (snd kv) = Inl e"
    then obtain kv e where "kv \<in> set d'" "json_dumps (snd kv) = Inl e" by blast
    with p2[of kv] show "\<exists>kv\<in>set d. \<exists>e. json_dumps (snd kv) = Inl e" by auto
  qed
  show ?thesis
  proof (cases "\<exists>e. Inl e \<in> set (map ?f d)")
    case True
    moreover from True same_fail have "\<exists>e. Inl e \<in> set (map ?f d')" by simp
    ultimately show ?thesis
      by (simp only: json_dumps.simps all_or_raise_cases[OF err] if_True bind_exn.simps)
  next
    case False
    with same_fail have False': "\<not> (\<exists>e. Inl e \<in> set (map ?f d'))" by simp
    have ok: "map projr (map ?f a) = map ?g a" if nf: "\<not> (\<exists>e. Inl e \<in> set (map ?f a))" for a
    proof -
      have "projr (?f kv) = ?g kv" if "kv \<in> set a" for kv
      proof (cases "json_dumps (snd kv)")
        case (Inl e)
        then have "Inl e \<in> set (map ?f a)"
          using that by (auto simp: image_iff intro!: bexI[of _ kv])
        with nf show ?thesis by blast
      next
        case (Inr v)
        then show ?thesis by simp
      qed
      then show ?thesis by simp
    qed
    have "set (map ?g d) = set (map ?g d')"
    proof (intro equalityI subsetI)
      fix x assume "x \<in> set (map ?g d)"
      then obtain kv where kv: "kv \<in> set d" "x = ?g kv" by auto
      from p1[OF kv(1)] obtain kv' where "kv' \<in> set d'" "?g kv' = ?g kv" by auto
      with kv(2) show "x \<in> set (map ?g d')" by (auto simp: image_iff intro!: bexI[of _ kv'])
    next
      fix x assume "x \<in> set (map ?g d')"
      then obtain kv where kv: "kv \<in> set d'" "x = ?g kv" by auto
      from p2[OF kv(1)] obtain kv' where "kv' \<in> set d" "?g kv' = ?g kv" by auto
      with kv(2) show "x \<in> set (map ?g d)" by (auto simp: image_iff intro!: bexI[of _ kv'])
    qed
    moreover have "distinct (map ?g d)"
      using dd by (auto simp: distinct_map inj_on_def)
    moreover have "distinct (map ?g d')"
      using dd' by (auto simp: distinct_map inj_on_def)
    ultimately have "mset (map ?g d) = mset (map ?g d')"
      by (simp only: set_eq_iff_mset_eq_distinct)
    moreover have "distinct (map fst (map ?g d))" using dd by (simp add: comp_def)
    ultimately have sorted_eq: "sort_key fst (map ?g d) = sort_key fst (map ?g d')"
      by (rule sort_key_fst_perm[rotated])
    have "all_or_raise (map ?f d) = Inr (map ?g d)"
      using False by (simp only: all_or_raise_cases[OF err] if_False ok[OF False])
    moreover have "all_or_raise (map ?f d') = Inr (map ?g d')"
      using False' by (simp only: all_or_raise_cases[OF err] if_False ok[OF False'])
    ultimately show ?thesis
      by (simp only: json_dumps.simps bind_exn.simps sorted_eq)
  qed
qed

lemma json_dumps_key_order:
  "same_up_to_key_order v v' \<Longrightarrow> json_dumps v = json_dumps v'"
proof (induction rule: same_up_to_key_order.induct)
  case (same_value v)
  show ?case by simp
next
  case (same_list xs ys)
  then have "map json_dumps xs = map json_dumps ys"
    by (simp add: list_eq_iff_nth_eq)
  then show ?case by simp
next
  case (same_dict d d')
  then show ?case by (intro json_dumps_dict_eq) auto
qed

lemma update_differs: "i < length s \<Longrightarrow> c \<noteq> s ! i \<Longrightarrow> s[i := c] \<noteq> s"
  by (metis nth_list_update_eq)

lemma webhook_signature_facts:
  "(generate_webhook_signature secret payload = Inr s \<longrightarrow>
      verify_webhook_signature payload s secret)
   \<and> (generate_webhook_signature secret payload = Inr s \<and> i < length s \<and> c \<noteq> s ! i \<longrightarrow>
      \<not> verify_webhook_signature payload (s[i := c]) secret)
   \<and> (same_up_to_key_order payload payload' \<longrightarrow>
      generate_webhook_signature secret payload' = generate_webhook_signature secret payload)"
  using update_differs[of i s c] json_dumps_key_order[of payload payload']
  by (auto simp: verify_webhook_signature_def compare_digest_def generate_webhook_signature_def)

lemma generate_webhook_signature_Inr:
  "json_dumps payload = Inr message \<Longrightarrow>
   generate_webhook_signature secret payload
     = Inr (hexdigest (hmac_sha256 (projr (encode secret)) (projr (encode message))))"
  by (simp add: generate_webhook_signature_def encode_def)

lemma hexdigest_chars: "set (hexdigest bs) \<subseteq> set ''0123456789abcdef''"
proof -
  have "digit_char n \<in> set ''0123456789abcdef''" for n
    unfolding digit_char_def by (rule nth_mem) simp
  then show ?thesis
    by (induction bs) (auto simp: hexdigest_def hex_byte_def)
qed

text \<open>
  Claim C3.  For a fixed secret: a signature made by \<open>generate_webhook_signature\<close>, that
  is with the verifier's serialisation and HMAC-SHA256, verifies; the same signature
  with any one character replaced by another does not; and a payload whose maps list
  their items in another order has the same signature.
\<close>

theorem webhook_signature_properties:
  "(generate_webhook_signature secret payload = Inr s \<longrightarrow>
      verify_webhook_signature payload s secret)
   \<and> (generate_webhook_signature secret payload = Inr s \<and> i < length s \<and> c \<noteq> s ! i \<longrightarrow>
      \<not> verify_webhook_signature payload (s[i := c]) secret)
   \<and> (same_up_to_key_order payload payload' \<longrightarrow>
      generate_webhook_signature secret payload' = generate_webhook_signature secret payload)"
  by (rule webhook_signature_facts)

theorem webhook_signature_properties_witness:
  "verify_webhook_signature
     (PDict [(''request_id'', PStr ''r1''), (''priority'', PStr ''high'')])
     (projr (generate_webhook_signature ''change-me-in-production''
        (PDict [(''request_id'', PStr ''r1''), (''priority'', PStr ''high'')])))
     ''change-me-in-production''
   \<and> \<not> verify_webhook_signature
     (PDict [(''request_id'', PStr ''r1''), (''priority'', PStr ''high'')])
     ((projr (generate_webhook_signature ''change-me-in-production''
        (PDict [(''request_id'', PStr ''r1''), (''priority'', PStr ''high'')])))[0 := CHR ''g''])
     ''change-me-in-production''
   \<and> generate_webhook_signature ''change-me-in-production''
        (PDict [(''priority'', PStr ''high''), (''request_id'', PStr ''r1'')])
     = generate_webhook_signature ''change-me-in-production''
        (PDict [(''request_id'', PStr ''r1''), (''priority'', PStr ''high'')])"
proof -
  let ?p = "PDict [(''request_id'', PStr ''r1''), (''priority'', PStr ''high'')]"
  let ?p' = "PDict [(''priority'', PStr ''high''), (''request_id'', PStr ''r1'')]"
  let ?k = "''change-me-in-production''"
  obtain m where "json_dumps ?p = Inr m" by simp
  then obtain s where s: "generate_webhook_signature ?k ?p = Inr s"
    and sd: "s = hexdigest (hmac_sha256 (projr (encode ?k)) (projr (encode m)))"
    by (simp add: generate_webhook_signature_Inr)
  have len: "0 < length s" by (simp add: sd length_hmac_hexdigest)
  then have "s ! 0 \<in> set ''0123456789abcdef''"
    using hexdigest_chars[of "hmac_sha256 (projr (encode ?k)) (projr (encode m))"] nth_mem[of 0 s]
    unfolding sd by blast
  then have ne: "CHR ''g'' \<noteq> s ! 0" by auto
  have same: "same_up_to_key_order ?p ?p'"
    by (rule same_dict) (auto intro: same_value)
  from webhook_signature_properties[of ?k ?p s 0 "CHR ''g''" ?p'] s len ne same
  show ?thesis by simp
qed

section \<open>The matcher and what it matches\<close>

lemma last_is_word_append [simp]:
  "last_is_word w (us @ vs) = last_is_word (last_is_word w us) vs"
  by (induction us arbitrary: w) auto

lemma last_is_word_nonempty: "zs \<noteq> [] \<Longrightarrow> last_is_word w zs = is_word (last zs)"
  by (induction zs arbitrary: w) auto

lemma first_is_word_next [simp]: "first_is_word zs (next_is_word ys) = next_is_word (zs @ ys)"
  by (cases zs) auto

lemma first_is_word_nonempty: "zs \<noteq> [] \<Longrightarrow> first_is_word zs nx = is_word (hd zs)"
  by (cases zs) auto

lemma next_is_word_nonempty: "zs \<noteq> [] \<Longrightarrow> next_is_word (zs @ ys) = is_word (hd zs)"
  by (cases zs) auto

lemma run_Plus_iff:
  "(w', ys) \<in> set (run (Plus p) (w, xs)) \<longleftrightarrow>
   (\<exists>zs. xs = zs @ ys \<and> zs \<noteq> [] \<and> list_all p zs \<and> w' = last_is_word w zs)"
proof (induction xs arbitrary: w)
  case Nil
  show ?case by simp
next
  case (Cons c cs)
  show ?case
  proof (cases "p c")
    case False
    then show ?thesis by (auto simp: Cons_eq_append_conv)
  next
    case True
    show ?thesis
    proof
      assume "(w', ys) \<in> set (run (Plus p) (w, c # cs))"
      with True have "(w', ys) \<in> set (run (Plus p) (is_word c, cs)) \<or> (w', ys) = (is_word c, cs)"
        by auto
      then show "\<exists>zs. c # cs = zs @ ys \<and> zs \<noteq> [] \<and> list_all p zs \<and> w' = last_is_word w zs"
      proof
        assume "(w', ys) \<in> set (run (Plus p) (is_word c, cs))"
        then obtain zs where "cs = zs @ ys" "zs \<noteq> []" "list_all p zs" "w' = last_is_word (is_word c) zs"
          using Cons.IH by blast
        with True show ?thesis by (intro exI[of _ "c # zs"]) simp
      next
        assume "(w', ys) = (is_word c, cs)"
        with True show ?thesis by (intro exI[of _ "[c]"]) simp
      qed
    next
      assume "\<exists>zs. c # cs = zs @ ys \<and> zs \<noteq> [] \<and> list_all p zs \<and> w' = last_is_word w zs"
      then obtain zs where zs: "c # cs = zs @ ys" "zs \<noteq> []" "list_all p zs" "w' = last_is_word w zs"
        by blast
      then obtain zs' where zs': "zs = c # zs'" "cs = zs' @ ys"
        by (cases zs) auto
      show "(w', ys) \<in> set (run (Plus p) (w, c # cs))"
      proof (cases "zs' = []")
        case True
        with zs zs' \<open>p c\<close> show ?thesis by simp
      next
        case False
        with zs zs' have "(w', ys) \<in> set (run (Plus p) (is_word c, cs))"
          using Cons.IH[of "is_word c"] by auto
        with \<open>p c\<close> show ?thesis by simp
      qed
    qed
  qed
qed

text \<open>The matcher stops exactly where the expression matches.\<close>

lemma run_iff:
  "(w', ys) \<in> set (run r (w, xs)) \<longleftrightarrow>
   (\<exists>zs. xs = zs @ ys \<and> w' = last_is_word w zs \<and> lang r w zs (next_is_word ys))"
proof (induction r arbitrary: w xs w' ys)
  case Eps
  show ?case by auto
next
  case (Cls p)
  show ?case
  proof (cases xs)
    case Nil
    then show ?thesis by (auto split: list.splits)
  next
    case (Cons c cs)
    show ?thesis
    proof
      assume "(w', ys) \<in> set (run (Cls p) (w, xs))"
      with Cons have "p c" "w' = is_word c" "ys = cs" by (auto split: if_splits)
      with Cons show "\<exists>zs. xs = zs @ ys \<and> w' = last_is_word w zs \<and> lang (Cls p) w zs (next_is_word ys)"
        by (intro exI[of _ "[c]"]) simp
    next
      assume "\<exists>zs. xs = zs @ ys \<and> w' = last_is_word w zs \<and> lang (Cls p) w zs (next_is_word ys)"
      then obtain zs where zs: "xs = zs @ ys" "w' = last_is_word w zs" "lang (Cls p) w zs (next_is_word ys)"
        by blast
      from zs(3) obtain d where "zs = [d]" "p d" by (auto split: list.splits)
      with zs Cons show "(w', ys) \<in> set (run (Cls p) (w, xs))" by auto
    qed
  qed
next
  case (Seq a b)
  show ?case
  proof
    assume "(w', ys) \<in> set (run (Seq a b) (w, xs))"
    then obtain w1 ys1 where 1: "(w1, ys1) \<in> set (run a (w, xs))"
      and 2: "(w', ys) \<in> set (run b (w1, ys1))"
      by auto
    from 1 obtain zs1 where zs1: "xs = zs1 @ ys1" "w1 = last_is_word w zs1"
      "lang a w zs1 (next_is_word ys1)"
      using Seq.IH(1) by blast
    from 2 obtain zs2 where zs2: "ys1 = zs2 @ ys" "w' = last_is_word w1 zs2"
      "lang b w1 zs2 (next_is_word ys)"
      using Seq.IH(2) by blast
    have "lang (Seq a b) w (zs1 @ zs2) (next_is_word ys)"
      using zs1 zs2 by (auto intro!: exI[of _ "length zs1"])
    with zs1 zs2 show "\<exists>zs. xs = zs @ ys \<and> w' = last_is_word w zs
        \<and> lang (Seq a b) w zs (next_is_word ys)"
      by (intro exI[of _ "zs1 @ zs2"]) simp
  next
    assume "\<exists>zs. xs = zs @ ys \<and> w' = last_is_word w zs \<and> lang (Seq a b) w zs (next_is_word ys)"
    then obtain zs k where zs: "xs = zs @ ys" "w' = last_is_word w zs" "k \<le> length zs"
      "lang a w (take k zs) (first_is_word (drop k zs) (next_is_word ys))"
      "lang b (last_is_word w (take k zs)) (drop k zs) (next_is_word ys)"
      by auto
    let ?w1 = "last_is_word w (take k zs)"
    have "xs = take k zs @ (drop k zs @ ys)" using zs(1) by simp
    with zs(4) have 1: "(?w1, drop k zs @ ys) \<in> set (run a (w, xs))"
      using Seq.IH(1)[of ?w1 "drop k zs @ ys" w xs] by auto
    have "w' = last_is_word ?w1 (drop k zs)"
      using zs(2) by (metis append_take_drop_id last_is_word_append)
    with zs(5) have 2: "(w', ys) \<in> set (run b (?w1, drop k zs @ ys))"
      using Seq.IH(2)[of w' ys ?w1 "drop k zs @ ys"] by auto
    from 1 2 show "(w', ys) \<in> set (run (Seq a b) (w, xs))" by auto
  qed
next
  case (Opt a)
  show ?case using Opt.IH[of w' ys w xs] by auto
next
  case (Plus p)
  show ?case by (simp only: run_Plus_iff lang.simps) blast
next
  case WordB
  show ?case by auto
qed

lemma run_nonempty_iff:
  "run r (w, xs) \<noteq> [] \<longleftrightarrow> (\<exists>zs ys. xs = zs @ ys \<and> lang r w zs (next_is_word ys))"
proof
  assume "run r (w, xs) \<noteq> []"
  then obtain w' ys where "(w', ys) \<in> set (run r (w, xs))"
    by (cases "run r (w, xs)") auto
  then show "\<exists>zs ys. xs = zs @ ys \<and> lang r w zs (next_is_word ys)"
    by (auto simp: run_iff)
next
  assume "\<exists>zs ys. xs = zs @ ys \<and> lang r w zs (next_is_word ys)"
  then obtain zs ys where "xs = zs @ ys" "lang r w zs (next_is_word ys)" by blast
  then have "(last_is_word w zs, ys) \<in> set (run r (w, xs))"
    by (auto simp: run_iff)
  then show "run r (w, xs) \<noteq> []" by auto
qed

lemma lang_alph: "lang r w zs nx \<Longrightarrow> c \<in> set zs \<Longrightarrow> alph r c"
proof (induction r arbitrary: w zs nx)
  case (Seq a b)
  then obtain k where k: "lang a w (take k zs) (first_is_word (drop k zs) nx)"
    "lang b (last_is_word w (take k zs)) (drop k zs) nx"
    by auto
  from Seq.prems(2) have "c \<in> set (take k zs) \<or> c \<in> set (drop k zs)"
    by (metis Un_iff append_take_drop_id set_append)
  then show ?case
  proof
    assume "c \<in> set (take k zs)"
    from Seq.IH(1)[OF k(1) this] show ?thesis by simp
  next
    assume "c \<in> set (drop k zs)"
    from Seq.IH(2)[OF k(2) this] show ?thesis by simp
  qed
next
  case (Plus p)
  then show ?case by (auto simp: list_all_iff)
qed (auto split: list.splits)

lemma lang_minlen: "lang r w zs nx \<Longrightarrow> minlen r \<le> length zs"
proof (induction r arbitrary: w zs nx)
  case (Seq a b)
  then obtain k where k: "k \<le> length zs" "lang a w (take k zs) (first_is_word (drop k zs) nx)"
    "lang b (last_is_word w (take k zs)) (drop k zs) nx"
    by auto
  from Seq.IH(1)[OF k(2)] Seq.IH(2)[OF k(3)] k(1) show ?case by simp
next
  case (Plus p)
  then show ?case by (cases zs) auto
qed (auto split: list.splits)

lemma lang_no_boundary: "no_boundary r \<Longrightarrow> lang r w zs nx = lang r w' zs nx'"
proof (induction r arbitrary: w zs nx w' nx')
  case (Seq a b)
  then have "lang a w (take k zs) (first_is_word (drop k zs) nx)
      = lang a w' (take k zs) (first_is_word (drop k zs) nx')"
    and "lang b (last_is_word w (take k zs)) (drop k zs) nx
      = lang b (last_is_word w' (take k zs)) (drop k zs) nx'" for k
    by auto
  then show ?case by simp
next
  case (Opt a)
  then have "lang a w zs nx = lang a w' zs nx'" by simp
  then show ?case by simp
qed auto

lemma lang_needs: "needs r P \<Longrightarrow> lang r w zs nx \<Longrightarrow> \<exists>c\<in>set zs. P c"
proof (induction r arbitrary: w zs nx)
  case (Seq a b)
  then obtain k where k: "lang a w (take k zs) (first_is_word (drop k zs) nx)"
    "lang b (last_is_word w (take k zs)) (drop k zs) nx"
    by auto
  from Seq.prems(1) have "needs a P \<or> needs b P" by simp
  then show ?case
  proof
    assume "needs a P"
    from Seq.IH(1)[OF this k(1)] show ?thesis by (auto dest: in_set_takeD)
  next
    assume "needs b P"
    from Seq.IH(2)[OF this k(2)] show ?thesis by (auto dest: in_set_dropD)
  qed
next
  case (Cls p)
  then show ?case by (auto split: list.splits)
next
  case (Plus p)
  then show ?case by (cases zs) auto
qed auto

text \<open>A pattern of the form \<open>\b core \b\<close>.\<close>

lemma lang_word_bounded:
  assumes "no_boundary core" and "0 < minlen core"
  shows "lang (word_bounded core) w zs nx \<longleftrightarrow>
    zs \<noteq> [] \<and> w \<noteq> is_word (hd zs) \<and> is_word (last zs) \<noteq> nx \<and> lang core False zs False"
proof -
  have "lang (Seq core WordB) w' ys nx \<longleftrightarrow> lang core w' ys nx \<and> last_is_word w' ys \<noteq> nx"
    for w' ys
  proof
    assume "lang (Seq core WordB) w' ys nx"
    then obtain k where "k \<le> length ys" "lang core w' (take k ys) (first_is_word (drop k ys) nx)"
      "drop k ys = []" "last_is_word w' (take k ys) \<noteq> nx"
      by auto
    then show "lang core w' ys nx \<and> last_is_word w' ys \<noteq> nx" by auto
  next
    assume "lang core w' ys nx \<and> last_is_word w' ys \<noteq> nx"
    then show "lang (Seq core WordB) w' ys nx"
      by (auto intro!: exI[of _ "length ys"])
  qed
  moreover have "lang (Seq WordB r) w zs nx \<longleftrightarrow> w \<noteq> first_is_word zs nx \<and> lang r w zs nx" for r
  proof
    assume "lang (Seq WordB r) w zs nx"
    then obtain k where k: "take k zs = []" "w \<noteq> first_is_word (drop k zs) nx"
      "lang r (last_is_word w (take k zs)) (drop k zs) nx"
      by auto
    have d: "drop k zs = zs"
      using k(1) by (metis append_Nil append_take_drop_id)
    from k(3) have "lang r w zs nx"
      unfolding k(1) d by simp
    with k(2) show "w \<noteq> first_is_word zs nx \<and> lang r w zs nx"
      unfolding d by simp
  next
    assume "w \<noteq> first_is_word zs nx \<and> lang r w zs nx"
    then show "lang (Seq WordB r) w zs nx"
      by (auto intro!: exI[of _ 0])
  qed
  ultimately have "lang (word_bounded core) w zs nx \<longleftrightarrow>
      w \<noteq> first_is_word zs nx \<and> lang core w zs nx \<and> last_is_word w zs \<noteq> nx"
    by (simp only: word_bounded_def)
  moreover have "zs \<noteq> []" if "lang core w zs nx"
    using lang_minlen[OF that] assms(2) by auto
  moreover have "lang core w zs nx = lang core False zs False"
    by (rule lang_no_boundary[OF assms(1)])
  ultimately show ?thesis
    by (auto simp: first_is_word_nonempty last_is_word_nonempty)
qed

section \<open>Substitution by a word-bounded pattern\<close>

lemma brackets_not_word: "\<not> is_word CHR ''[''" "\<not> is_word CHR '']''"
  by (simp_all add: is_word_def is_digit_def is_upper_def is_lower_def in_range_def code_def)

lemma wb_match:
  assumes "plain_core c" and "(w', ys) \<in> set (run (word_bounded c) (w, xs))"
  shows "\<exists>zs. xs = zs @ ys \<and> zs \<noteq> [] \<and> w' = is_word (last zs) \<and> w \<noteq> is_word (hd zs)
     \<and> is_word (last zs) \<noteq> next_is_word ys \<and> lang c False zs False"
proof -
  from assms(2) obtain zs where zs: "xs = zs @ ys" "w' = last_is_word w zs"
    "lang (word_bounded c) w zs (next_is_word ys)"
    by (auto simp: run_iff)
  from assms(1) have "no_boundary c" "0 < minlen c" by (simp_all add: plain_core_def)
  from zs(3) lang_word_bounded[OF this]
  have "zs \<noteq> []" "w \<noteq> is_word (hd zs)" "is_word (last zs) \<noteq> next_is_word ys"
    "lang c False zs False"
    by simp_all
  with zs show ?thesis by (auto simp: last_is_word_nonempty)
qed

lemma wb_match_intro:
  assumes "plain_core c" and "zs \<noteq> []" and "w \<noteq> is_word (hd zs)"
    and "is_word (last zs) \<noteq> next_is_word ys" and "lang c False zs False"
  shows "run (word_bounded c) (w, zs @ ys) \<noteq> []"
proof -
  from assms(1) have "no_boundary c" "0 < minlen c" by (simp_all add: plain_core_def)
  from lang_word_bounded[OF this] assms(2-5)
  have "lang (word_bounded c) w zs (next_is_word ys)" by simp
  then show ?thesis by (auto simp: run_nonempty_iff)
qed

lemma wb_no_empty: "plain_core c \<Longrightarrow> run (word_bounded c) (w, []) = []"
proof (rule ccontr)
  assume c: "plain_core c" and "run (word_bounded c) (w, []) \<noteq> []"
  then obtain w' ys where "(w', ys) \<in> set (run (word_bounded c) (w, []))"
    by (cases "run (word_bounded c) (w, [])") auto
  from wb_match[OF c this] show False by auto
qed

lemma sub_Nil: "plain_core c \<Longrightarrow> sub (word_bounded c) ph w [] = []"
  by (simp add: wb_no_empty)

lemma sub_miss: "run r (w, x # xs) = [] \<Longrightarrow> sub r ph w (x # xs) = x # sub r ph (is_word x) xs"
  by simp

lemma sub_hit:
  assumes "plain_core c" and "run (word_bounded c) (w, x # xs) = (w', rest) # others"
  shows "sub (word_bounded c) ph w (x # xs) = ph @ sub (word_bounded c) ph w' rest"
    and "\<exists>zs. x # xs = zs @ rest \<and> zs \<noteq> [] \<and> w' = is_word (last zs) \<and> w \<noteq> is_word (hd zs)
       \<and> is_word (last zs) \<noteq> next_is_word rest \<and> lang c False zs False"
proof -
  have "(w', rest) \<in> set (run (word_bounded c) (w, x # xs))"
    using assms(2) by simp
  from wb_match[OF assms(1) this]
  show m: "\<exists>zs. x # xs = zs @ rest \<and> zs \<noteq> [] \<and> w' = is_word (last zs) \<and> w \<noteq> is_word (hd zs)
       \<and> is_word (last zs) \<noteq> next_is_word rest \<and> lang c False zs False" .
  then obtain zs where "x # xs = zs @ rest" "zs \<noteq> []" by blast
  then have "length rest < length (x # xs)"
    by (metis length_append length_greater_0_conv less_add_same_cancel2)
  then show "sub (word_bounded c) ph w (x # xs) = ph @ sub (word_bounded c) ph w' rest"
    using assms(2) by simp
qed

lemma sub_nomatch: "nomatch r w xs \<Longrightarrow> sub r ph w xs = xs"
  by (induction xs arbitrary: w) auto

lemma nomatch_append:
  "nomatch r w (us @ vs) \<longleftrightarrow>
     (\<forall>k<length us. run r (last_is_word w (take k us), drop k us @ vs) = [])
     \<and> nomatch r (last_is_word w us) vs"
proof (induction us arbitrary: w)
  case Nil
  show ?case by simp
next
  case (Cons u us)
  show ?case
    by (simp add: Cons.IH All_less_Suc2)
qed

lemma sub_prefix:
  assumes "plain_core c" and "placeholder ph"
  shows "sub (word_bounded c) ph w xs = zs @ ys \<Longrightarrow> CHR ''['' \<notin> set zs \<Longrightarrow>
    \<exists>xs'. xs = zs @ xs' \<and> ys = sub (word_bounded c) ph (last_is_word w zs) xs'"
proof (induction zs arbitrary: w xs)
  case Nil
  then show ?case by simp
next
  case (Cons z zs)
  show ?case
  proof (cases xs)
    case Nil
    with Cons.prems(1) assms(1) show ?thesis by (simp add: wb_no_empty)
  next
    case (Cons x xs0)
    show ?thesis
    proof (cases "run (word_bounded c) (w, x # xs0)")
      case Nil
      with Cons.prems(1) \<open>xs = x # xs0\<close>
      have "z = x \<and> sub (word_bounded c) ph (is_word x) xs0 = zs @ ys"
        by auto
      then have "z = x" "sub (word_bounded c) ph (is_word x) xs0 = zs @ ys"
        by blast+
      moreover from Cons.prems(2) have "CHR ''['' \<notin> set zs" by simp
      ultimately obtain xs' where "xs0 = zs @ xs'"
        "ys = sub (word_bounded c) ph (last_is_word (is_word x) zs) xs'"
        using Cons.IH by blast
      with \<open>z = x\<close> \<open>xs = x # xs0\<close> show ?thesis by simp
    next
      case (Cons hit others)
      obtain w' rest where "hit = (w', rest)" by (cases hit)
      with Cons have "sub (word_bounded c) ph w (x # xs0) = ph @ sub (word_bounded c) ph w' rest"
        using sub_hit(1)[OF assms(1)] by simp
      moreover from assms(2) obtain ph' where "ph = CHR ''['' # ph'"
        by (cases ph) (auto simp: placeholder_def)
      ultimately have "z = CHR ''[''"
        using Cons.prems(1) \<open>xs = x # xs0\<close> by simp
      with Cons.prems(2) show ?thesis by simp
    qed
  qed
qed

lemma sub_next:
  assumes "plain_core c" and "placeholder ph"
  shows "next_is_word (sub (word_bounded c) ph w xs) = next_is_word xs
     \<or> (\<not> w \<and> next_is_word xs)"
proof (cases xs)
  case Nil
  with assms(1) show ?thesis by (simp add: wb_no_empty)
next
  case (Cons x xs0)
  show ?thesis
  proof (cases "run (word_bounded c) (w, x # xs0)")
    case Nil
    with Cons show ?thesis by simp
  next
    case (Cons hit others)
    obtain w' rest where "hit = (w', rest)" by (cases hit)
    with Cons have r: "run (word_bounded c) (w, x # xs0) = (w', rest) # others" by simp
    from sub_hit(2)[OF assms(1) r]
    obtain zs where "x # xs0 = zs @ rest" "zs \<noteq> []" "w \<noteq> is_word (hd zs)"
      by blast
    then have wx: "w \<noteq> is_word x" by (cases zs) auto
    from assms(2) obtain ph' where "ph = CHR ''['' # ph'"
      by (cases ph) (auto simp: placeholder_def)
    with sub_hit(1)[OF assms(1) r, of ph]
    have "next_is_word (sub (word_bounded c) ph w (x # xs0)) = False"
      using brackets_not_word(1) by (simp del: sub.simps)
    with wx \<open>xs = x # xs0\<close> show ?thesis
      by (cases "is_word x") (simp_all del: sub.simps)
  qed
qed

lemma placeholder_blocks:
  assumes "plain_core q" and "placeholder ph" and "k < length ph"
  shows "run (word_bounded q) (wk, drop k ph @ tail) = []"
proof (rule ccontr)
  assume "run (word_bounded q) (wk, drop k ph @ tail) \<noteq> []"
  then obtain w' ys where "(w', ys) \<in> set (run (word_bounded q) (wk, drop k ph @ tail))"
    by (cases "run (word_bounded q) (wk, drop k ph @ tail)") auto
  from wb_match[OF assms(1) this] obtain zs where zs: "drop k ph @ tail = zs @ ys" "zs \<noteq> []"
    "lang q False zs False"
    by blast
  from assms(1) have q: "\<not> alph q CHR '']''" "needs q (\<lambda>c. \<not> ph_char c)"
    by (simp_all add: plain_core_def)
  from lang_needs[OF q(2) zs(3)] obtain c where c: "c \<in> set zs" "\<not> ph_char c" by blast
  from zs(1) obtain us where "(drop k ph = zs @ us \<and> us @ tail = ys) \<or> (drop k ph @ us = zs \<and> tail = us @ ys)"
    by (auto simp: append_eq_append_conv2)
  then show False
  proof
    assume "drop k ph = zs @ us \<and> us @ tail = ys"
    then have "set zs \<subseteq> set ph"
      by (metis Un_upper1 set_append set_drop_subset subset_trans)
    with c(1) have "c \<in> set ph" by blast
    with assms(2) have "ph_char c" by (simp add: placeholder_def list_all_iff)
    with c(2) show False by simp
  next
    assume a: "drop k ph @ us = zs \<and> tail = us @ ys"
    from assms(3) have "drop k ph \<noteq> []" by simp
    then have "last (drop k ph) \<in> set (drop k ph)" by (rule last_in_set)
    moreover have "last (drop k ph) = CHR '']''"
      using assms(2,3) by (simp add: placeholder_def)
    ultimately have "CHR '']'' \<in> set zs" using a by auto
    from lang_alph[OF zs(3) this] q(1) show False by simp
  qed
qed

text \<open>
  A match of \<open>q\<close> in the text after substitution sits on a stretch of the text before
  it, and was a match there.
\<close>

lemma match_after_sub:
  assumes p: "plain_core p" and q: "plain_core q" and ph: "placeholder ph"
    and ctx: "w' = w \<or> (w \<and> \<not> w' \<and> \<not> next_is_word xs)"
    and hit: "run (word_bounded q) (w', sub (word_bounded p) ph w xs) \<noteq> []"
  shows "run (word_bounded q) (w, xs) \<noteq> []"
proof -
  from hit obtain w2 ys where "(w2, ys) \<in> set (run (word_bounded q) (w', sub (word_bounded p) ph w xs))"
    by (cases "run (word_bounded q) (w', sub (word_bounded p) ph w xs)") auto
  from wb_match[OF q this] obtain zs where zs: "sub (word_bounded p) ph w xs = zs @ ys"
    "zs \<noteq> []" "w' \<noteq> is_word (hd zs)" "is_word (last zs) \<noteq> next_is_word ys"
    "lang q False zs False"
    by blast
  from q have "\<not> alph q CHR ''[''" by (simp add: plain_core_def)
  with lang_alph[OF zs(5)] have "CHR ''['' \<notin> set zs" by blast
  from sub_prefix[OF p ph zs(1) this] obtain xs' where xs': "xs = zs @ xs'"
    "ys = sub (word_bounded p) ph (last_is_word w zs) xs'"
    by blast
  have lw: "last_is_word w zs = is_word (last zs)"
    using zs(2) by (rule last_is_word_nonempty)
  have start: "w \<noteq> is_word (hd zs)"
  proof (cases "w' = w")
    case True
    with zs(3) show ?thesis by simp
  next
    case False
    with ctx have "w" "\<not> w'" "\<not> next_is_word xs" by auto
    with xs'(1) zs(2) have "\<not> is_word (hd zs)" by (simp add: next_is_word_nonempty)
    with zs(3) \<open>\<not> w'\<close> show ?thesis by simp
  qed
  have "is_word (last zs) \<noteq> next_is_word xs'"
    using sub_next[OF p ph, of "is_word (last zs)" xs'] zs(4) xs'(2) lw by auto
  from wb_match_intro[OF q zs(2) start this zs(5)] xs'(1) show ?thesis by simp
qed

text \<open>
  After \<open>p\<close> has been substituted, \<open>q\<close> matches nowhere, if \<open>q\<close> is \<open>p\<close> itself or
  matched nowhere before.
\<close>

lemma nomatch_after_sub:
  assumes p: "plain_core p" and q: "plain_core q" and ph: "placeholder ph"
  shows "w' = w \<or> (w \<and> \<not> w' \<and> \<not> next_is_word xs) \<Longrightarrow>
    q = p \<or> nomatch (word_bounded q) w xs \<Longrightarrow>
    nomatch (word_bounded q) w' (sub (word_bounded p) ph w xs)"
proof (induction xs arbitrary: w w' rule: length_induct)
  case (1 xs)
  let ?P = "word_bounded p" and ?Q = "word_bounded q"
  have first: "run ?Q (w', sub ?P ph w xs) = []" if "run ?P (w, xs) = []"
  proof (rule ccontr)
    assume "run ?Q (w', sub ?P ph w xs) \<noteq> []"
    from match_after_sub[OF p q ph "1.prems"(1) this] have "run ?Q (w, xs) \<noteq> []" .
    moreover from "1.prems"(2) that have "run ?Q (w, xs) = []"
      by (cases xs) auto
    ultimately show False by simp
  qed
  show ?case
  proof (cases xs)
    case Nil
    then show ?thesis by (simp add: wb_no_empty[OF p] wb_no_empty[OF q])
  next
    case (Cons x xs0)
    show ?thesis
    proof (cases "run ?P (w, x # xs0)")
      case Nil
      have "nomatch ?Q (is_word x) (sub ?P ph (is_word x) xs0)"
      proof (rule "1.IH"[rule_format])
        show "length xs0 < length xs" using Cons by simp
        show "is_word x = is_word x \<or> (is_word x \<and> \<not> is_word x \<and> \<not> next_is_word xs0)" by simp
        show "q = p \<or> nomatch ?Q (is_word x) xs0" using "1.prems"(2) Cons by auto
      qed
      moreover have "run ?Q (w', x # sub ?P ph (is_word x) xs0) = []"
        using first Nil Cons by simp
      ultimately show ?thesis using Nil Cons by simp
    next
      case (Cons hit others)
      obtain w2 rest where hit: "hit = (w2, rest)" by (cases hit)
      with Cons have r: "run ?P (w, x # xs0) = (w2, rest) # others" by simp
      from sub_hit[OF p r] obtain zs where
        out: "sub ?P ph w (x # xs0) = ph @ sub ?P ph w2 rest"
        and zs: "x # xs0 = zs @ rest" "zs \<noteq> []" "w2 = is_word (last zs)"
          "is_word (last zs) \<noteq> next_is_word rest"
        by blast
      have lp: "last_is_word w' ph = False"
        using ph brackets_not_word(2) by (simp add: placeholder_def last_is_word_nonempty)
      have "nomatch ?Q False (sub ?P ph w2 rest)"
      proof (rule "1.IH"[rule_format])
        show "length rest < length xs"
          using zs(1,2) \<open>xs = x # xs0\<close>
          by (metis length_append length_greater_0_conv less_add_same_cancel2)
        show "False = w2 \<or> (w2 \<and> \<not> False \<and> \<not> next_is_word rest)"
          using zs(3,4) by auto
        show "q = p \<or> nomatch ?Q w2 rest"
        proof (cases "q = p")
          case True
          then show ?thesis by simp
        next
          case False
          with "1.prems"(2) \<open>xs = x # xs0\<close> zs(1) have "nomatch ?Q w (zs @ rest)" by simp
          then have "nomatch ?Q (last_is_word w zs) rest" by (simp add: nomatch_append)
          with zs(2,3) show ?thesis by (simp add: last_is_word_nonempty)
        qed
      qed
      moreover have "\<forall>k<length ph. run ?Q (last_is_word w' (take k ph),
          drop k ph @ sub ?P ph w2 rest) = []"
        using placeholder_blocks[OF q ph] by simp
      ultimately have "nomatch ?Q w' (ph @ sub ?P ph w2 rest)"
        by (simp add: nomatch_append lp)
      with out \<open>xs = x # xs0\<close> show ?thesis by simp
    qed
  qed
qed

section \<open>\<open>redact_pii\<close> is idempotent\<close>

lemmas class_defs = email_local_def email_domain_def email_tld_def phone_sep_def cc_sep_def
  ph_char_def is_digit_def is_upper_def is_lower_def is_space_def in_range_def code_def

lemma plain_email: "plain_core EMAIL_CORE"
  by (auto simp: plain_core_def EMAIL_CORE_def Chr_def class_defs)

lemma plain_phone: "plain_core PHONE_CORE"
  by (auto simp: plain_core_def PHONE_CORE_def Chr_def eval_nat_numeral class_defs)

lemma plain_ssn: "plain_core SSN_CORE"
  by (auto simp: plain_core_def SSN_CORE_def Chr_def eval_nat_numeral class_defs)

lemma plain_cc: "plain_core CC_CORE"
  by (auto simp: plain_core_def CC_CORE_def Chr_def eval_nat_numeral class_defs)

lemma placeholders:
  "placeholder ''[EMAIL_REDACTED]''" "placeholder ''[PHONE_REDACTED]''"
  "placeholder ''[SSN_REDACTED]''" "placeholder ''[CC_REDACTED]''"
  by (simp_all add: placeholder_def ph_char_def is_upper_def in_range_def code_def)

lemma nomatch_same:
  "plain_core p \<Longrightarrow> placeholder ph \<Longrightarrow> nomatch (word_bounded p) w (sub (word_bounded p) ph w xs)"
  by (rule nomatch_after_sub) simp_all

lemma nomatch_kept:
  "plain_core p \<Longrightarrow> plain_core q \<Longrightarrow> placeholder ph \<Longrightarrow> nomatch (word_bounded q) w xs \<Longrightarrow>
   nomatch (word_bounded q) w (sub (word_bounded p) ph w xs)"
  by (rule nomatch_after_sub) simp_all

lemma redact_pii_nomatch:
  "nomatch EMAIL_PATTERN False (redact_pii s) \<and> nomatch PHONE_PATTERN False (redact_pii s)
   \<and> nomatch SSN_PATTERN False (redact_pii s) \<and> nomatch CC_PATTERN False (redact_pii s)"
proof (cases "s = []")
  case True
  then show ?thesis
    by (simp add: redact_pii_def EMAIL_PATTERN_def PHONE_PATTERN_def SSN_PATTERN_def
        CC_PATTERN_def wb_no_empty plain_email plain_phone plain_ssn plain_cc del: run.simps)
next
  case False
  let ?t1 = "sub EMAIL_PATTERN ''[EMAIL_REDACTED]'' False s"
  let ?t2 = "sub PHONE_PATTERN ''[PHONE_REDACTED]'' False ?t1"
  let ?t3 = "sub SSN_PATTERN ''[SSN_REDACTED]'' False ?t2"
  let ?t4 = "sub CC_PATTERN ''[CC_REDACTED]'' False ?t3"
  have r: "redact_pii s = ?t4"
    using False by (simp add: redact_pii_def Let_def del: sub.simps)
  have e1: "nomatch EMAIL_PATTERN False ?t1"
    unfolding EMAIL_PATTERN_def by (rule nomatch_same[OF plain_email placeholders(1)])
  have e2: "nomatch EMAIL_PATTERN False ?t2"
    using e1 unfolding EMAIL_PATTERN_def PHONE_PATTERN_def
    by (rule nomatch_kept[OF plain_phone plain_email placeholders(2)])
  have e3: "nomatch EMAIL_PATTERN False ?t3"
    using e2 unfolding EMAIL_PATTERN_def PHONE_PATTERN_def SSN_PATTERN_def
    by (rule nomatch_kept[OF plain_ssn plain_email placeholders(3)])
  have e4: "nomatch EMAIL_PATTERN False ?t4"
    using e3 unfolding EMAIL_PATTERN_def PHONE_PATTERN_def SSN_PATTERN_def CC_PATTERN_def
    by (rule nomatch_kept[OF plain_cc plain_email placeholders(4)])
  have p2: "nomatch PHONE_PATTERN False ?t2"
    unfolding PHONE_PATTERN_def by (rule nomatch_same[OF plain_phone placeholders(2)])
  have p3: "nomatch PHONE_PATTERN False ?t3"
    using p2 unfolding EMAIL_PATTERN_def PHONE_PATTERN_def SSN_PATTERN_def
    by (rule nomatch_kept[OF plain_ssn plain_phone placeholders(3)])
  have p4: "nomatch PHONE_PATTERN False ?t4"
    using p3 unfolding EMAIL_PATTERN_def PHONE_PATTERN_def SSN_PATTERN_def CC_PATTERN_def
    by (rule nomatch_kept[OF plain_cc plain_phone placeholders(4)])
  have s3: "nomatch SSN_PATTERN False ?t3"
    unfolding SSN_PATTERN_def by (rule nomatch_same[OF plain_ssn placeholders(3)])
  have s4: "nomatch SSN_PATTERN False ?t4"
    using s3 unfolding EMAIL_PATTERN_def PHONE_PATTERN_def SSN_PATTERN_def CC_PATTERN_def
    by (rule nomatch_kept[OF plain_cc plain_ssn placeholders(4)])
  have c4: "nomatch CC_PATTERN False ?t4"
    unfolding CC_PATTERN_def by (rule nomatch_same[OF plain_cc placeholders(4)])
  from e4 p4 s4 c4 show ?thesis
    unfolding r by blast
qed

lemma redact_pii_fixed:
  assumes "nomatch EMAIL_PATTERN False t" and "nomatch PHONE_PATTERN False t"
    and "nomatch SSN_PATTERN False t" and "nomatch CC_PATTERN False t"
  shows "redact_pii t = t"
  using assms by (simp add: redact_pii_def Let_def sub_nomatch del: sub.simps)

text \<open>
  Claim C7.  Text redaction is idempotent: \<open>redact_pii (redact_pii s) = redact_pii s\<close>
  for every string \<open>s\<close>.  None of the four patterns matches anywhere in a redacted
  text, so a second pass replaces nothing.
\<close>

theorem redact_pii_idempotent:
  "redact_pii (redact_pii s) = redact_pii s
   \<and> nomatch EMAIL_PATTERN False (redact_pii s) \<and> nomatch PHONE_PATTERN False (redact_pii s)
   \<and> nomatch SSN_PATTERN False (redact_pii s) \<and> nomatch CC_PATTERN False (redact_pii s)"
  using redact_pii_nomatch[of s] redact_pii_fixed[of "redact_pii s"] by blast

theorem redact_pii_idempotent_witness:
  "redact_pii (redact_pii ''mail a@b.com or call 555-123-4567'')
     = redact_pii ''mail a@b.com or call 555-123-4567''"
  using redact_pii_idempotent[of "''mail a@b.com or call 555-123-4567''"] by blast


end
